theory Spec2Isabelle
  imports Complex_Main "HOL-Library.Word"
begin

section \<open>VivoPaint (script.js): the data model\<close>

text \<open>
  The script keeps its session in the global object \<open>state\<close> and in three stacked canvas
  elements (image, mask, result).  The handlers are embedded as functions on an explicit
  session record.  What the browser contributes (image resampling, the rasterisation of a
  stroked path, the page layout, whether memory for pixel data can be had) is passed to the
  handlers as a parameter or kept in the session; what the 2D canvas interface does with
  pixel data (clearing, compositing, reading and writing image data, resetting on resize) is
  written out on 8-bit RGBA bitmaps.  A bitmap is kept as the bytes that reading it gives;
  since a canvas holds its pixels multiplied by their alpha, a pixel that is written is kept
  as that multiplication and the division on reading leave it.
\<close>

type_synonym u8 = "8 word"

type_synonym pixel = "u8 \<times> u8 \<times> u8 \<times> u8"

datatype tool_name = Brush | Eraser

datatype line_cap = ButtCap | RoundCap | SquareCap

datatype line_join = MiterJoin | RoundJoin | BevelJoin

datatype composite_op = SourceOver | DestinationOut

datatype css_display = FromStylesheet | DisplayNone | DisplayFlex | DisplayBlock

datatype error = ValidationError string | GenerationError string

datatype js_exception = InvalidStateError | IndexSizeError | RangeError

type_synonym point = "rat \<times> rat"

record context2d =
  lineWidth :: rat
  lineCap :: line_cap
  lineJoin :: line_join
  globalCompositeOperation :: composite_op
  strokeStyle :: pixel
  path :: "point list list"

record canvas =
  cwidth :: nat
  cheight :: nat
  cdata :: "u8 list"
  cctx :: context2d

record image =
  iwidth :: nat
  iheight :: nat
  idata :: "u8 list"

record image_data =
  dwidth :: nat
  dheight :: nat
  ddata :: "u8 list"

record client_rect =
  rleft :: rat
  rtop :: rat
  rwidth :: rat
  rheight :: rat

record mouse_event =
  clientX :: rat
  clientY :: rat

record download =
  filename :: string
  content :: "nat \<times> nat \<times> u8 list"

record session =
  tool :: tool_name
  brushSize :: int
  isDrawing :: bool
  imageLoaded :: bool
  hasResult :: bool
  imgCanvas :: canvas
  maskCanvas :: canvas
  resultCanvas :: canvas
  wrapper_size :: "rat \<times> rat"
  emptyState_display :: css_display
  loader_display :: css_display
  resultCanvas_display :: css_display
  maskCanvas_opacity :: "rat option"
  prompt :: string
  can_allocate :: "nat \<Rightarrow> bool"

text \<open>The browser's part: a resampler gives, for an image drawn at a destination size onto a
  canvas of given dimensions, the source pixel that lands on each canvas pixel; a rasteriser
  gives the coverage (0..255) of each canvas pixel by a stroked path; \<open>can_allocate n\<close> says
  whether the browser can, at this moment, allocate an \<open>ImageData\<close> of \<open>n\<close> bytes.\<close>

type_synonym resampler = "image \<Rightarrow> rat \<Rightarrow> rat \<Rightarrow> nat \<Rightarrow> nat \<Rightarrow> nat \<Rightarrow> pixel"

type_synonym rasteriser = "context2d \<Rightarrow> nat \<Rightarrow> nat \<Rightarrow> nat \<Rightarrow> u8"

section \<open>JavaScript numbers\<close>

text \<open>\<open>maxWidth / w\<close> and \<open>h * ratio\<close> are double-precision operations: the exact quotient
  or product, rounded to the nearest number with a 53-bit significand, ties to the even
  significand.  (Exponent overflow and subnormal numbers are not modelled: the operands here
  are image dimensions.)\<close>

fun bitlen :: "nat \<Rightarrow> nat" where
  "bitlen n = (if n = 0 then 0 else Suc (bitlen (n div 2)))"

definition pow2 :: "int \<Rightarrow> rat" where
  "pow2 k = (if 0 \<le> k then 2 ^ nat k else 1 / 2 ^ nat (- k))"

definition exponent :: "rat \<Rightarrow> int" where
  "exponent x =
     (if 1 \<le> x then int (bitlen (nat \<lfloor>x\<rfloor>)) - 1
      else (let c = int (bitlen (nat \<lfloor>1 / x\<rfloor>))
            in if x = pow2 (1 - c) then 1 - c else - c))"

definition round_half_even :: "rat \<Rightarrow> int" where
  "round_half_even x =
     (let f = \<lfloor>x\<rfloor>; d = x - of_int f
      in if d < 1 / 2 then f else if 1 / 2 < d then f + 1 else if even f then f else f + 1)"

definition binary64 :: "rat \<Rightarrow> rat" where
  "binary64 x =
     (if x = 0 then 0
      else (let a = \<bar>x\<bar>; u = pow2 (exponent a - 52)
            in sgn x * (of_int (round_half_even (a / u)) * u)))"

definition fdiv :: "rat \<Rightarrow> rat \<Rightarrow> rat" where
  "fdiv a b = binary64 (a / b)"

definition fmul :: "rat \<Rightarrow> rat \<Rightarrow> rat" where
  "fmul a b = binary64 (a * b)"

text \<open>Assigning a number to \<open>canvas.width\<close> or \<open>canvas.height\<close> converts it to an unsigned
  long: the fraction is dropped, the integer is taken modulo \<open>2^32\<close>, and a value above
  \<open>2147483647\<close> is replaced by the attribute's default.\<close>

definition to_dimension :: "rat \<Rightarrow> nat \<Rightarrow> nat" where
  "to_dimension v dflt =
     (let n = (if v < 0 then - \<lfloor>- v\<rfloor> else \<lfloor>v\<rfloor>) mod 2 ^ 32
      in if n \<le> 2147483647 then nat n else dflt)"

text \<open>Storing a non-negative integer into a \<open>Uint8ClampedArray\<close>.\<close>

definition clamp8 :: "nat \<Rightarrow> u8" where
  "clamp8 n = of_nat (min n 255)"

section \<open>The 2D canvas\<close>

definition byte_at :: "u8 list \<Rightarrow> nat \<Rightarrow> u8" where
  "byte_at xs i = (if i < length xs then xs ! i else 0)"

definition pixel_at :: "u8 list \<Rightarrow> nat \<Rightarrow> pixel" where
  "pixel_at xs p = (byte_at xs (4 * p), byte_at xs (4 * p + 1), byte_at xs (4 * p + 2), byte_at xs (4 * p + 3))"

fun channel :: "pixel \<Rightarrow> nat \<Rightarrow> u8" where
  "channel (r, g, b, a) k = (if k = 0 then r else if k = 1 then g else if k = 2 then b else a)"

definition alpha :: "pixel \<Rightarrow> nat" where
  "alpha px = unat (channel px 3)"

definition alpha_at :: "u8 list \<Rightarrow> nat \<Rightarrow> nat" where
  "alpha_at xs p = unat (byte_at xs (4 * p + 3))"

definition transparent :: pixel where
  "transparent = (0, 0, 0, 0)"

text \<open>Porter-Duff compositing on 8-bit channels (alpha not premultiplied), products of two
  fractions of 255 rounded to the nearest integer.\<close>

definition mul255 :: "nat \<Rightarrow> nat \<Rightarrow> nat" where
  "mul255 a b = (a * b + 127) div 255"

definition mix :: "u8 \<Rightarrow> nat \<Rightarrow> u8 \<Rightarrow> nat \<Rightarrow> u8" where
  "mix cs ws cd wd = of_nat ((unat cs * ws + unat cd * wd + (ws + wd) div 2) div (ws + wd))"

fun composite :: "composite_op \<Rightarrow> pixel \<Rightarrow> pixel \<Rightarrow> pixel" where
  "composite SourceOver (sr, sg, sb, sa) (dr, dg, db, da) =
     (let ws = 255 * unat sa; wd = unat da * (255 - unat sa);
          ao = unat sa + mul255 (unat da) (255 - unat sa)
      in if ao = 0 then transparent
         else (mix sr ws dr wd, mix sg ws dg wd, mix sb ws db wd, of_nat ao))"
| "composite DestinationOut (sr, sg, sb, sa) (dr, dg, db, da) =
     (let ao = mul255 (unat da) (255 - unat sa)
      in if ao = 0 then transparent else (dr, dg, db, of_nat ao))"

text \<open>What a bitmap keeps of a pixel written to it: the colour channels are multiplied by
  alpha (rounded to the nearest integer) and divided by it again on reading (halves rounded
  up).  An opaque pixel is kept as it is, a pixel of alpha 0 as transparent black, and alpha
  itself is always kept.\<close>

definition unpremultiply :: "nat \<Rightarrow> nat \<Rightarrow> nat" where
  "unpremultiply c a = (c * 255 + a div 2) div a"

definition through_alpha :: "u8 \<Rightarrow> u8 \<Rightarrow> u8" where
  "through_alpha c a = of_nat (unpremultiply (mul255 (unat c) (unat a)) (unat a))"

fun stored :: "pixel \<Rightarrow> pixel" where
  "stored (r, g, b, a) =
     (if a = 0 then transparent
      else (through_alpha r a, through_alpha g a, through_alpha b a, a))"

definition paint_pixels :: "composite_op \<Rightarrow> (nat \<Rightarrow> pixel) \<Rightarrow> u8 list \<Rightarrow> u8 list" where
  "paint_pixels op src xs =
     map (\<lambda>i. channel (stored (composite op (src (i div 4)) (pixel_at xs (i div 4)))) (i mod 4))
       [0..<length xs]"

definition default_ctx :: context2d where
  "default_ctx = \<lparr>lineWidth = 1, lineCap = ButtCap, lineJoin = MiterJoin,
     globalCompositeOperation = SourceOver, strokeStyle = (0, 0, 0, 255), path = []\<rparr>"

text \<open>Setting \<open>width\<close> or \<open>height\<close> (also to the value it has) replaces the bitmap by a
  transparent black one of the new size and resets the drawing state.\<close>

definition set_width :: "rat \<Rightarrow> canvas \<Rightarrow> canvas" where
  "set_width v c =
     (let w = to_dimension v 300
      in c\<lparr>cwidth := w, cdata := replicate (4 * w * cheight c) 0, cctx := default_ctx\<rparr>)"

definition set_height :: "rat \<Rightarrow> canvas \<Rightarrow> canvas" where
  "set_height v c =
     (let h = to_dimension v 150
      in c\<lparr>cheight := h, cdata := replicate (4 * cwidth c * h) 0, cctx := default_ctx\<rparr>)"

definition clearRect :: "nat \<Rightarrow> nat \<Rightarrow> nat \<Rightarrow> nat \<Rightarrow> canvas \<Rightarrow> canvas" where
  "clearRect x y w h c =
     c\<lparr>cdata :=
         map (\<lambda>i. let px = (i div 4) mod cwidth c; py = (i div 4) div cwidth c
                  in if x \<le> px \<and> px < x + w \<and> y \<le> py \<and> py < y + h then 0 else cdata c ! i)
           [0..<length (cdata c)]\<rparr>"

text \<open>\<open>drawImage(image, 0, 0, dw, dh)\<close> with an image element: nothing is drawn for an image
  without pixels; otherwise the resampled image is composited onto the bitmap.\<close>

definition drawImage_image :: "resampler \<Rightarrow> image \<Rightarrow> rat \<Rightarrow> rat \<Rightarrow> canvas \<Rightarrow> canvas" where
  "drawImage_image resample img dw dh c =
     (if iwidth img = 0 \<or> iheight img = 0 then c
      else c\<lparr>cdata := paint_pixels (globalCompositeOperation (cctx c))
                  (resample img dw dh (cwidth c) (cheight c)) (cdata c)\<rparr>)"

text \<open>\<open>drawImage(canvas, 0, 0)\<close> with a canvas as the source: an exception for a source
  without pixels; otherwise the source is composited at its own size at the origin.\<close>

definition drawImage_canvas :: "canvas \<Rightarrow> canvas \<Rightarrow> js_exception + canvas" where
  "drawImage_canvas src c =
     (if cwidth src = 0 \<or> cheight src = 0 then Inl InvalidStateError
      else Inr (c\<lparr>cdata :=
         map (\<lambda>i. let p = i div 4; x = p mod cwidth c; y = p div cwidth c
                  in if x < cwidth src \<and> y < cheight src
                     then channel (stored (composite (globalCompositeOperation (cctx c))
                            (pixel_at (cdata src) (y * cwidth src + x)) (pixel_at (cdata c) p))) (i mod 4)
                     else cdata c ! i)
           [0..<length (cdata c)]\<rparr>))"

text \<open>\<open>getImageData\<close>: an exception for an empty rectangle, and one when the pixel data
  cannot be allocated; otherwise the bytes of the rectangle.  \<open>putImageData\<close> writes the
  pixels of the image data over those of the bitmap, without compositing; the bitmap keeps
  of each what \<open>stored\<close> gives.\<close>

definition getImageData ::
  "(nat \<Rightarrow> bool) \<Rightarrow> nat \<Rightarrow> nat \<Rightarrow> nat \<Rightarrow> nat \<Rightarrow> canvas \<Rightarrow> js_exception + image_data" where
  "getImageData alloc sx sy sw sh c =
     (if sw = 0 \<or> sh = 0 then Inl IndexSizeError
      else if \<not> alloc (4 * sw * sh) then Inl RangeError
      else Inr \<lparr>dwidth = sw, dheight = sh,
        ddata = map (\<lambda>i. let p = i div 4; x = sx + p mod sw; y = sy + p div sw
                          in if x < cwidth c \<and> y < cheight c
                             then byte_at (cdata c) (4 * (y * cwidth c + x) + i mod 4) else 0)
                  [0..<4 * sw * sh]\<rparr>)"

definition putImageData :: "image_data \<Rightarrow> nat \<Rightarrow> nat \<Rightarrow> canvas \<Rightarrow> canvas" where
  "putImageData d dx dy c =
     c\<lparr>cdata :=
         map (\<lambda>i. let p = i div 4; x = p mod cwidth c; y = p div cwidth c
                  in if dx \<le> x \<and> x < dx + dwidth d \<and> dy \<le> y \<and> y < dy + dheight d
                     then channel (stored (pixel_at (ddata d) ((y - dy) * dwidth d + (x - dx)))) (i mod 4)
                     else cdata c ! i)
           [0..<length (cdata c)]\<rparr>"

text \<open>Paths: a list of subpaths, each a list of points.  \<open>lineTo\<close> and \<open>moveTo\<close> ignore a
  coordinate that is not finite (\<open>None\<close>); \<open>lineTo\<close> on an empty path only starts a subpath.\<close>

definition beginPath :: "context2d \<Rightarrow> context2d" where
  "beginPath cx = cx\<lparr>path := []\<rparr>"

definition moveTo :: "rat option \<Rightarrow> rat option \<Rightarrow> context2d \<Rightarrow> context2d" where
  "moveTo x y cx =
     (case (x, y) of
        (Some a, Some b) \<Rightarrow> cx\<lparr>path := path cx @ [[(a, b)]]\<rparr>
      | _ \<Rightarrow> cx)"

definition lineTo :: "rat option \<Rightarrow> rat option \<Rightarrow> context2d \<Rightarrow> context2d" where
  "lineTo x y cx =
     (case (x, y) of
        (Some a, Some b) \<Rightarrow>
          (if path cx = [] then cx\<lparr>path := [[(a, b)]]\<rparr>
           else cx\<lparr>path := butlast (path cx) @ [last (path cx) @ [(a, b)]]\<rparr>)
      | _ \<Rightarrow> cx)"

text \<open>The \<open>lineWidth\<close> setter ignores values that are not positive.\<close>

definition set_lineWidth :: "rat \<Rightarrow> context2d \<Rightarrow> context2d" where
  "set_lineWidth v cx = (if 0 < v then cx\<lparr>lineWidth := v\<rparr> else cx)"

text \<open>\<open>stroke()\<close>: every pixel receives the stroke colour with its alpha scaled by the pixel's
  coverage, composited with the current operation.\<close>

fun scale_alpha :: "pixel \<Rightarrow> u8 \<Rightarrow> pixel" where
  "scale_alpha (r, g, b, a) k = (r, g, b, of_nat (mul255 (unat a) (unat k)))"

definition stroke :: "rasteriser \<Rightarrow> canvas \<Rightarrow> canvas" where
  "stroke raster c =
     c\<lparr>cdata := paint_pixels (globalCompositeOperation (cctx c))
                  (\<lambda>p. scale_alpha (strokeStyle (cctx c)) (raster (cctx c) (cwidth c) (cheight c) p))
                  (cdata c)\<rparr>"

text \<open>Before a path is stroked, the standard has its zero-length segments pruned and then
  every subpath left without a line removed.  A path is \<open>lineless\<close> when nothing of it
  remains.\<close>

definition lineless :: "context2d \<Rightarrow> bool" where
  "lineless cx = list_all (\<lambda>sp. length (remdups_adj sp) < 2) (path cx)"

section \<open>The handlers\<close>

definition setTool :: "tool_name \<Rightarrow> session \<Rightarrow> session" where
  "setTool toolName s = s\<lparr>tool := toolName\<rparr>"

definition resize :: "rat \<Rightarrow> rat \<Rightarrow> canvas \<Rightarrow> canvas" where
  "resize w h c = set_height h (set_width w c)"

definition resizeCanvases :: "rat \<Rightarrow> rat \<Rightarrow> session \<Rightarrow> session" where
  "resizeCanvases w h s =
     s\<lparr>wrapper_size := (w, h),
       imgCanvas := resize w h (imgCanvas s),
       maskCanvas := resize w h (maskCanvas s),
       resultCanvas := resize w h (resultCanvas s)\<rparr>"

definition clearMask :: "session \<Rightarrow> session" where
  "clearMask s =
     s\<lparr>maskCanvas := clearRect 0 0 (cwidth (maskCanvas s)) (cheight (maskCanvas s)) (maskCanvas s)\<rparr>"

text \<open>\<open>handleImageUpload\<close>: the body of \<open>img.onload\<close>, run with the decoded image.\<close>

definition final_size :: "nat \<Rightarrow> nat \<Rightarrow> rat \<times> rat" where
  "final_size w h =
     (let maxWidth = 2048
      in if w > maxWidth
         then (let ratio = fdiv (of_nat maxWidth) (of_nat w)
               in (of_nat maxWidth, fmul (of_nat h) ratio))
         else (of_nat w, of_nat h))"

definition handleImageUpload :: "resampler \<Rightarrow> image \<Rightarrow> session \<Rightarrow> session" where
  "handleImageUpload resample img s =
     (let (finalW, finalH) = final_size (iwidth img) (iheight img);
          s1 = resizeCanvases finalW finalH s;
          s2 = s1\<lparr>imgCanvas := drawImage_image resample img finalW finalH (imgCanvas s1)\<rparr>;
          s3 = s2\<lparr>emptyState_display := DisplayNone, imageLoaded := True, hasResult := False,
                  resultCanvas_display := DisplayNone\<rparr>
      in clearMask s3)"

text \<open>\<open>paint\<close>: the pointer position in canvas pixels (a division by a zero layout size gives
  a number that is not finite), the stroke settings of the active tool, one stroked segment,
  and a fresh path starting at the point.\<close>

definition paint :: "rasteriser \<Rightarrow> client_rect \<Rightarrow> mouse_event \<Rightarrow> session \<Rightarrow> session" where
  "paint raster rect e s =
     (let m = maskCanvas s;
          scaleX = (if rwidth rect = 0 then None else Some (of_nat (cwidth m) / rwidth rect));
          scaleY = (if rheight rect = 0 then None else Some (of_nat (cheight m) / rheight rect));
          x = map_option (\<lambda>k. (clientX e - rleft rect) * k) scaleX;
          y = map_option (\<lambda>k. (clientY e - rtop rect) * k) scaleY;
          c1 = (set_lineWidth (of_int (brushSize s)) (cctx m))\<lparr>lineCap := RoundCap, lineJoin := RoundJoin\<rparr>;
          c2 = (if tool s = Brush
                then c1\<lparr>globalCompositeOperation := SourceOver, strokeStyle := (255, 50, 50, 255)\<rparr>
                else c1\<lparr>globalCompositeOperation := DestinationOut, strokeStyle := (0, 0, 0, 255)\<rparr>);
          m1 = stroke raster (m\<lparr>cctx := lineTo x y c2\<rparr>);
          m2 = m1\<lparr>cctx := moveTo x y (beginPath (cctx m1))\<rparr>
      in s\<lparr>maskCanvas := m2\<rparr>)"

definition startDraw :: "rasteriser \<Rightarrow> client_rect \<Rightarrow> mouse_event \<Rightarrow> session \<Rightarrow> session" where
  "startDraw raster rect e s =
     (if \<not> imageLoaded s then s else paint raster rect e (s\<lparr>isDrawing := True\<rparr>))"

definition stopDraw :: "session \<Rightarrow> session" where
  "stopDraw s =
     s\<lparr>isDrawing := False, maskCanvas := (maskCanvas s)\<lparr>cctx := beginPath (cctx (maskCanvas s))\<rparr>\<rparr>"

definition draw :: "rasteriser \<Rightarrow> client_rect \<Rightarrow> mouse_event \<Rightarrow> session \<Rightarrow> session" where
  "draw raster rect e s = (if \<not> isDrawing s then s else paint raster rect e s)"

text \<open>\<open>runGeneration\<close> suspends once, at the simulated delay.  \<open>runGeneration_begin\<close> is the
  part before the delay (an early return with an alert is a \<open>ValidationError\<close> carrying the
  alert's text; the two \<open>toDataURL\<close> calls only read, and their results are not used),
  \<open>runGeneration_finish\<close> the \<open>try\<close> block with its \<open>catch\<close> and \<open>finally\<close>, run on the
  session as it is when the delay ends.  \<open>runGeneration\<close> is a call during whose delay no
  other handler runs.\<close>

definition arr_get :: "u8 list \<Rightarrow> nat \<Rightarrow> u8 option" where
  "arr_get xs i = (if i < length xs then Some (xs ! i) else None)"

definition shifted :: "u8 option \<Rightarrow> nat \<Rightarrow> u8" where
  "shifted v k = (case v of None \<Rightarrow> 0 | Some b \<Rightarrow> clamp8 ((unat b + k) mod 255))"

definition painted :: "u8 option \<Rightarrow> bool" where
  "painted v = (case v of None \<Rightarrow> False | Some a \<Rightarrow> 0 < unat a)"

function simulate :: "u8 list \<Rightarrow> u8 list \<Rightarrow> nat \<Rightarrow> u8 list" where
  "simulate imgData resultData i =
     (if i < length imgData
      then simulate imgData
             (if painted (arr_get imgData (i + 3))
              then (let r1 = resultData[i := shifted (arr_get resultData i) 50];
                        r2 = r1[i + 1 := shifted (arr_get r1 (i + 1)) 20]
                    in r2[i + 2 := 200])
              else resultData)
             (i + 4)
      else resultData)"
  by pat_completeness auto
termination
  by (relation "measure (\<lambda>(imgData, resultData, i). length imgData - i)") auto

declare simulate.simps [simp del]

definition generation_failed :: "session \<Rightarrow> error option \<times> session" where
  "generation_failed s =
     (Some (GenerationError ''AI Generation failed. Check console.''), s\<lparr>loader_display := DisplayNone\<rparr>)"

definition runGeneration_begin :: "session \<Rightarrow> error option \<times> session" where
  "runGeneration_begin s =
     (if \<not> imageLoaded s then (Some (ValidationError ''Please upload an image first.''), s)
      else if prompt s = [] then (Some (ValidationError ''Please enter a prompt describing the change.''), s)
      else (None, s\<lparr>loader_display := DisplayFlex\<rparr>))"

definition runGeneration_finish :: "session \<Rightarrow> error option \<times> session" where
  "runGeneration_finish s =
     (let r1 = clearRect 0 0 (cwidth (resultCanvas s)) (cheight (resultCanvas s)) (resultCanvas s)
      in case drawImage_canvas (imgCanvas s) r1 of
           Inl ex \<Rightarrow> generation_failed (s\<lparr>resultCanvas := r1\<rparr>)
         | Inr r2 \<Rightarrow>
            (case getImageData (can_allocate s) 0 0 (cwidth (maskCanvas s)) (cheight (maskCanvas s))
                    (maskCanvas s) of
               Inl ex \<Rightarrow> generation_failed (s\<lparr>resultCanvas := r2\<rparr>)
             | Inr imgData \<Rightarrow>
                (case getImageData (can_allocate s) 0 0 (cwidth r2) (cheight r2) r2 of
                   Inl ex \<Rightarrow> generation_failed (s\<lparr>resultCanvas := r2\<rparr>)
                 | Inr resultData \<Rightarrow>
                    (let d = resultData\<lparr>ddata := simulate (ddata imgData) (ddata resultData) 0\<rparr>;
                         r3 = putImageData d 0 0 r2
                     in (None, s\<lparr>resultCanvas := r3, resultCanvas_display := DisplayBlock,
                                 hasResult := True, maskCanvas_opacity := Some 0,
                                 loader_display := DisplayNone\<rparr>)))))"

definition runGeneration :: "session \<Rightarrow> error option \<times> session" where
  "runGeneration s =
     (case runGeneration_begin s of
        (Some err, s') \<Rightarrow> (Some err, s')
      | (None, s') \<Rightarrow> runGeneration_finish s')"

definition exportImage :: "session \<Rightarrow> download option \<times> session" where
  "exportImage s =
     (if \<not> imageLoaded s then (None, s)
      else (let c = (if hasResult s then resultCanvas s else imgCanvas s)
            in (Some \<lparr>filename = ''vivopaint-export.png'', content = (cwidth c, cheight c, cdata c)\<rparr>, s)))"

section \<open>Sessions the script can be in\<close>

text \<open>A bitmap is well formed when it has four bytes for each pixel, and storable when each
  of its pixels is one that a bitmap can keep.  The sessions the
  script can reach start from the page as loaded (the values of the \<open>state\<close> literal, fresh
  canvases of whatever size the page gives them) and follow the registered handlers; the
  second half of a generation may run at any later moment, so it is a step of its own, and
  the memory the browser can give may change at any moment.\<close>

definition wf_canvas :: "canvas \<Rightarrow> bool" where
  "wf_canvas c = (length (cdata c) = 4 * cwidth c * cheight c)"

definition storable :: "u8 list \<Rightarrow> bool" where
  "storable xs = list_all (\<lambda>p. stored (pixel_at xs p) = pixel_at xs p) [0..<length xs div 4]"

text \<open>The bytes a bitmap keeps of pixel data written to it.\<close>

definition stored_data :: "u8 list \<Rightarrow> u8 list" where
  "stored_data xs = map (\<lambda>i. channel (stored (pixel_at xs (i div 4))) (i mod 4)) [0..<length xs]"

definition same_size :: "canvas \<Rightarrow> canvas \<Rightarrow> bool" where
  "same_size a b = (cwidth a = cwidth b \<and> cheight a = cheight b)"

definition session_inv :: "session \<Rightarrow> bool" where
  "session_inv s =
     (wf_canvas (imgCanvas s) \<and> wf_canvas (maskCanvas s) \<and> wf_canvas (resultCanvas s) \<and>
      storable (cdata (imgCanvas s)) \<and> storable (cdata (maskCanvas s)) \<and>
      globalCompositeOperation (cctx (resultCanvas s)) = SourceOver \<and>
      (\<not> isDrawing s \<longrightarrow> path (cctx (maskCanvas s)) = []) \<and>
      (imageLoaded s \<longrightarrow>
         same_size (maskCanvas s) (imgCanvas s) \<and> same_size (resultCanvas s) (imgCanvas s)))"

definition fresh_canvas :: "canvas \<Rightarrow> bool" where
  "fresh_canvas c =
     (cdata c = replicate (4 * cwidth c * cheight c) 0 \<and> cctx c = default_ctx)"

definition initial :: "session \<Rightarrow> bool" where
  "initial s =
     (tool s = Brush \<and> brushSize s = 30 \<and> \<not> isDrawing s \<and> \<not> imageLoaded s \<and> \<not> hasResult s \<and>
      fresh_canvas (imgCanvas s) \<and> fresh_canvas (maskCanvas s) \<and> fresh_canvas (resultCanvas s))"

inductive reachable :: "session \<Rightarrow> bool" where
  init: "initial s \<Longrightarrow> reachable s"
| tool: "reachable s \<Longrightarrow> reachable (setTool t s)"
| size: "reachable s \<Longrightarrow> reachable (s\<lparr>brushSize := n\<rparr>)"
| typing: "reachable s \<Longrightarrow> reachable (s\<lparr>prompt := txt\<rparr>)"
| memory: "reachable s \<Longrightarrow> reachable (s\<lparr>can_allocate := f\<rparr>)"
| upload: "reachable s \<Longrightarrow> reachable (handleImageUpload resample img s)"
| mousedown: "reachable s \<Longrightarrow> reachable (startDraw raster rect e s)"
| mousemove: "reachable s \<Longrightarrow> reachable (draw raster rect e s)"
| mouseup: "reachable s \<Longrightarrow> reachable (stopDraw s)"
| clear: "reachable s \<Longrightarrow> reachable (clearMask s)"
| generate: "reachable s \<Longrightarrow> reachable (snd (runGeneration_begin s))"
| resume: "reachable s \<Longrightarrow> reachable (snd (runGeneration_finish s))"
| export: "reachable s \<Longrightarrow> reachable (snd (exportImage s))"

text \<open>What the loop of the simulation stores into channel \<open>k\<close> of a painted pixel.\<close>

definition fake_channel :: "nat \<Rightarrow> u8 \<Rightarrow> u8" where
  "fake_channel k v =
     (if k = 0 then clamp8 ((unat v + 50) mod 255)
      else if k = 1 then clamp8 ((unat v + 20) mod 255)
      else if k = 2 then 200 else v)"

section \<open>An example session\<close>

text \<open>The page as it is loaded, a two-pixel photo, a resampler that copies pixels, and a
  rasteriser for which a path with a line covers the first pixel only and a path without
  one covers nothing.\<close>

definition blank_canvas :: "nat \<Rightarrow> nat \<Rightarrow> canvas" where
  "blank_canvas w h = \<lparr>cwidth = w, cheight = h, cdata = replicate (4 * w * h) 0, cctx = default_ctx\<rparr>"

definition page :: session where
  "page = \<lparr>tool = Brush, brushSize = 30, isDrawing = False, imageLoaded = False, hasResult = False,
     imgCanvas = blank_canvas 300 150, maskCanvas = blank_canvas 300 150,
     resultCanvas = blank_canvas 300 150, wrapper_size = (0, 0),
     emptyState_display = FromStylesheet, loader_display = FromStylesheet,
     resultCanvas_display = FromStylesheet, maskCanvas_opacity = None, prompt = [],
     can_allocate = (\<lambda>n. True)\<rparr>"

definition photo :: image where
  "photo = \<lparr>iwidth = 2, iheight = 1, idata = [250, 240, 230, 255, 10, 20, 30, 255]\<rparr>"

definition copy_pixels :: resampler where
  "copy_pixels img dw dh cw ch = pixel_at (idata img)"

definition dab :: rasteriser where
  "dab cx w h p = (if \<not> lineless cx \<and> p = 0 then 255 else 0)"

definition layout :: client_rect where
  "layout = \<lparr>rleft = 0, rtop = 0, rwidth = 2, rheight = 1\<rparr>"

definition click :: mouse_event where
  "click = \<lparr>clientX = 1 / 2, clientY = 1 / 2\<rparr>"

definition move :: mouse_event where
  "move = \<lparr>clientX = 3 / 2, clientY = 1 / 2\<rparr>"

definition loaded :: session where
  "loaded = handleImageUpload copy_pixels photo page"

text \<open>A press on the first pixel, a drag to the second, the release.\<close>

definition pressed :: session where
  "pressed = startDraw dab layout click loaded"

definition masked :: session where
  "masked = stopDraw (draw dab layout move pressed)"

text \<open>With the eraser selected, a press on the first pixel of the painted mask.\<close>

definition erasing :: session where
  "erasing = startDraw dab layout click (setTool Eraser masked)"

definition prompted :: session where
  "prompted = masked\<lparr>prompt := ''test''\<rparr>"

definition generated :: session where
  "generated = snd (runGeneration prompted)"


text \<open>A picture of one translucent pixel, uploaded, painted over with a drag and given a
  prompt.\<close>

definition glass :: image where
  "glass = \<lparr>iwidth = 1, iheight = 1, idata = [102, 51, 0, 10]\<rparr>"

definition pane :: client_rect where
  "pane = \<lparr>rleft = 0, rtop = 0, rwidth = 1, rheight = 1\<rparr>"

definition framed :: session where
  "framed = handleImageUpload copy_pixels glass page"

definition tinted :: session where
  "tinted = (stopDraw (draw dab pane move (startDraw dab pane click framed)))\<lparr>prompt := ''test''\<rparr>"

text \<open>A strip of 4096 by 1 pixels: scaled down to width 2048 it has no row left.\<close>

definition strip :: image where
  "strip = \<lparr>iwidth = 4096, iheight = 1, idata = replicate (4 * 4096) 255\<rparr>"

definition flat :: session where
  "flat = (handleImageUpload copy_pixels strip page)\<lparr>prompt := ''test''\<rparr>"

text \<open>An image of 8192 by 7 pixels, and one of 3136 by 49 pixels.\<close>

definition wide :: image where
  "wide = \<lparr>iwidth = 8192, iheight = 7, idata = replicate (4 * 8192 * 7) 255\<rparr>"

definition banner :: image where
  "banner = \<lparr>iwidth = 3136, iheight = 49, idata = replicate (4 * 3136 * 49) 255\<rparr>"

section \<open>Validation and export guards\<close>

text \<open>C3: in a session with no image loaded, generate fails with a ValidationError (the
  alert "Please upload an image first."), and the session, in particular the Mask Buffer and
  the Result Buffer, is unchanged.\<close>

theorem generate_without_image:
  assumes "\<not> imageLoaded s"
  shows "runGeneration s = (Some (ValidationError ''Please upload an image first.''), s)
    \<and> maskCanvas (snd (runGeneration s)) = maskCanvas s
    \<and> resultCanvas (snd (runGeneration s)) = resultCanvas s"
  using assms by (simp add: runGeneration_def runGeneration_begin_def)

theorem generate_without_image_witness:
  "\<not> imageLoaded page
   \<and> runGeneration page = (Some (ValidationError ''Please upload an image first.''), page)
   \<and> maskCanvas (snd (runGeneration page)) = maskCanvas page
   \<and> resultCanvas (snd (runGeneration page)) = resultCanvas page"
proof -
  have h: "\<not> imageLoaded page"
    by (simp add: page_def)
  from generate_without_image [OF h] h show ?thesis
    by simp
qed

text \<open>C4: in a session with an image loaded and an empty prompt, generate fails with a
  ValidationError (the alert "Please enter a prompt describing the change.") and returns the
  session as it was: no buffer and no flag is changed.\<close>

theorem generate_without_prompt:
  assumes "imageLoaded s" and "prompt s = []"
  shows "runGeneration s = (Some (ValidationError ''Please enter a prompt describing the change.''), s)"
  using assms by (simp add: runGeneration_def runGeneration_begin_def)

text \<open>C10: in a session with no image loaded, export produces no file and returns the
  session as it was.\<close>

theorem export_without_image:
  assumes "\<not> imageLoaded s"
  shows "exportImage s = (None, s)"
  using assms by (simp add: exportImage_def)

theorem export_without_image_witness:
  "\<not> imageLoaded page \<and> exportImage page = (None, page)"
proof -
  have h: "\<not> imageLoaded page"
    by (simp add: page_def)
  from export_without_image [OF h] h show ?thesis
    by simp
qed

section \<open>Bytes and compositing\<close>

lemma unat_u8_le: "unat (x :: u8) \<le> 255"
  using unsigned_less [of x, where 'a = nat] by simp

lemma unat_of_nat_u8: "n \<le> 255 \<Longrightarrow> unat (of_nat n :: u8) = n"
  by (simp add: unat_of_nat)

lemma of_nat_u8_eq_0: "n \<le> 255 \<Longrightarrow> (of_nat n :: u8) = 0 \<Longrightarrow> n = 0"
proof -
  assume "n \<le> 255" and "(of_nat n :: u8) = 0"
  then have "unat (of_nat n :: u8) = 0" by simp
  with \<open>n \<le> 255\<close> show "n = 0" by (simp add: unat_of_nat_u8)
qed

lemma channel_tuple: "(channel px 0, channel px (Suc 0), channel px 2, channel px 3) = px"
  by (cases px) simp

lemma div4_facts:
  "(4 * p) div 4 = (p::nat)" "(4 * p + 1) div 4 = p" "(4 * p + 2) div 4 = p" "(4 * p + 3) div 4 = p"
  "(4 * p) mod 4 = 0" "(4 * p + 1) mod 4 = 1" "(4 * p + 2) mod 4 = 2" "(4 * p + 3) mod 4 = 3"
  "Suc (4 * p) div 4 = p" "Suc (Suc (4 * p)) div 4 = p" "Suc (4 * p) mod 4 = 1" "Suc (Suc (4 * p)) mod 4 = 2"
  by presburger+

lemma length_paint_pixels [simp]: "length (paint_pixels op src xs) = length xs"
  by (simp add: paint_pixels_def)

lemma byte_at_paint_pixels:
  "i < length xs \<Longrightarrow>
   byte_at (paint_pixels op src xs) i =
     channel (stored (composite op (src (i div 4)) (pixel_at xs (i div 4)))) (i mod 4)"
  by (simp add: byte_at_def paint_pixels_def)

lemma pixel_at_paint_pixels:
  assumes "4 * p + 3 < length xs"
  shows "pixel_at (paint_pixels op src xs) p = stored (composite op (src p) (pixel_at xs p))"
proof -
  from assms have "4 * p < length xs" "4 * p + 1 < length xs" "4 * p + 2 < length xs"
    by simp_all
  with assms show ?thesis
    by (simp add: pixel_at_def [of "paint_pixels op src xs"] byte_at_paint_pixels div4_facts channel_tuple)
qed

lemma mul255_le_left: "b \<le> 255 \<Longrightarrow> mul255 a b \<le> a"
proof -
  assume "b \<le> 255"
  then have "a * b + 127 \<le> a * 255 + 127"
    by simp
  then have "(a * b + 127) div 255 \<le> (a * 255 + 127) div 255"
    by (rule div_le_mono)
  then show ?thesis
    by (simp add: mul255_def)
qed

lemma mul255_le_right: "a \<le> 255 \<Longrightarrow> mul255 a b \<le> b"
  using mul255_le_left [of a b] by (simp add: mul255_def mult.commute)

lemma mul255_full: "mul255 a 255 = a"
  by (simp add: mul255_def)

lemma mul255_ge: 
  assumes "a \<le> 255" and "s \<le> 255"
  shows "a \<le> s + mul255 a (255 - s)"
proof -
  have "a * s \<le> 255 * s"
    using assms by simp
  then have "a * 255 - 255 * s \<le> a * 255 - a * s"
    by (rule diff_le_mono2)
  then have "255 * (a - s) \<le> a * (255 - s)"
    by (simp add: diff_mult_distrib2 mult.commute)
  then have "255 * (a - s) div 255 \<le> (a * (255 - s) + 127) div 255"
    by (intro div_le_mono) simp
  then show ?thesis
    by (simp add: mul255_def)
qed

lemma unpremultiply_le:
  assumes "0 < a" and "c \<le> a"
  shows "unpremultiply c a \<le> 255"
proof -
  have "c * 255 + a div 2 \<le> a * 255 + a div 2"
    using assms(2) by simp
  then have "(c * 255 + a div 2) div a \<le> (a * 255 + a div 2) div a"
    by (rule div_le_mono)
  also have "\<dots> = 255"
    using assms(1) by simp
  finally show ?thesis
    by (simp add: unpremultiply_def)
qed

lemma premultiply_back:
  assumes "0 < a" and "a \<le> 255" and "c \<le> a"
  shows "mul255 (unpremultiply c a) a = c"
proof -
  define u where "u = unpremultiply c a"
  have lo: "u * a \<le> c * 255 + a div 2"
    by (simp add: u_def unpremultiply_def)
  have hi: "c * 255 + a div 2 < a + u * a"
    unfolding u_def unpremultiply_def using assms(1) by (rule dividend_less_div_times)
  have h: "a div 2 \<le> 127" "a \<le> a div 2 + 128"
    using assms(2) by linarith+
  have "(u * a + 127) div 255 = c"
  proof (rule div_nat_eqI)
    show "255 * c \<le> u * a + 127"
      using hi h by linarith
    show "u * a + 127 < 255 * Suc c"
      using lo h by simp
  qed
  then show ?thesis
    by (simp add: mul255_def u_def)
qed

lemma through_alpha_opaque: "through_alpha c 255 = c"
  by (simp add: through_alpha_def unpremultiply_def mul255_full)

lemma through_alpha_idem:
  assumes "a \<noteq> 0"
  shows "through_alpha (through_alpha c a) a = through_alpha c a"
proof -
  let ?m = "mul255 (unat c) (unat a)"
  let ?u = "unpremultiply ?m (unat a)"
  have a: "0 < unat a"
    using assms by (simp add: unat_gt_0)
  have m: "?m \<le> unat a"
    by (rule mul255_le_right) (rule unat_u8_le)
  from a m have "?u \<le> 255"
    by (rule unpremultiply_le)
  then have "unat (of_nat ?u :: u8) = ?u"
    by (rule unat_of_nat_u8)
  moreover have "mul255 ?u (unat a) = ?m"
    using a unat_u8_le m by (rule premultiply_back)
  ultimately show ?thesis
    by (simp add: through_alpha_def)
qed

lemma alpha_stored [simp]: "alpha (stored px) = alpha px"
  by (cases px) (simp add: alpha_def transparent_def)

lemma stored_transparent [simp]: "stored transparent = transparent"
  by (simp add: transparent_def)

lemma stored_clear: "alpha px = 0 \<Longrightarrow> stored px = transparent"
  by (cases px) (simp add: alpha_def unsigned_eq_0_iff)

lemma unat_u8_255: "unat (a :: u8) = 255 \<Longrightarrow> a = 255"
proof -
  assume "unat a = 255"
  then have "(of_nat (unat a) :: u8) = of_nat 255"
    by (rule arg_cong)
  then show "a = 255"
    by simp
qed

lemma stored_opaque: "alpha px = 255 \<Longrightarrow> stored px = px"
proof -
  obtain r g b a where px: "px = (r, g, b, a)" by (cases px)
  assume "alpha px = 255"
  then have "a = 255"
    by (simp add: px alpha_def unat_u8_255)
  then show ?thesis
    by (simp add: px through_alpha_opaque)
qed

lemma stored_idem [simp]: "stored (stored px) = stored px"
  by (cases px) (simp add: through_alpha_idem transparent_def)

lemma source_over_alpha: "alpha d \<le> alpha (composite SourceOver s d)"
proof -
  obtain sr sg sb sa where s: "s = (sr, sg, sb, sa)" by (cases s)
  obtain dr dg db da where d: "d = (dr, dg, db, da)" by (cases d)
  let ?ao = "unat sa + mul255 (unat da) (255 - unat sa)"
  have le: "unat da \<le> ?ao"
    by (rule mul255_ge) (rule unat_u8_le)+
  have "mul255 (unat da) (255 - unat sa) \<le> 255 - unat sa"
    by (rule mul255_le_right) (rule unat_u8_le)
  then have "?ao \<le> 255"
    using unat_u8_le [of sa] by simp
  then have "unat (of_nat ?ao :: u8) = ?ao"
    by (rule unat_of_nat_u8)
  with le show ?thesis
    by (simp add: s d alpha_def Let_def transparent_def)
qed

lemma destination_out_alpha: "alpha (composite DestinationOut s d) \<le> alpha d"
proof -
  obtain sr sg sb sa where s: "s = (sr, sg, sb, sa)" by (cases s)
  obtain dr dg db da where d: "d = (dr, dg, db, da)" by (cases d)
  let ?ao = "mul255 (unat da) (255 - unat sa)"
  have le: "?ao \<le> unat da"
    by (rule mul255_le_left) simp
  then have "?ao \<le> 255"
    using unat_u8_le [of da] by simp
  then have "unat (of_nat ?ao :: u8) = ?ao"
    by (rule unat_of_nat_u8)
  with le show ?thesis
    by (simp add: s d alpha_def Let_def transparent_def)
qed

section \<open>Canvas operations\<close>

lemma resize_simps [simp]:
  "cwidth (resize w h c) = to_dimension w 300"
  "cheight (resize w h c) = to_dimension h 150"
  "cdata (resize w h c) = replicate (4 * to_dimension w 300 * to_dimension h 150) 0"
  "cctx (resize w h c) = default_ctx"
  by (simp_all add: resize_def set_width_def set_height_def Let_def)

lemma clearRect_simps [simp]:
  "cwidth (clearRect x y w h c) = cwidth c"
  "cheight (clearRect x y w h c) = cheight c"
  "cctx (clearRect x y w h c) = cctx c"
  "length (cdata (clearRect x y w h c)) = length (cdata c)"
  by (simp_all add: clearRect_def)

lemma clearRect_blank:
  assumes "cdata c = replicate n 0"
  shows "cdata (clearRect x y w h c) = replicate n 0"
  by (rule nth_equalityI) (simp_all add: clearRect_def assms Let_def)

lemma pixel_coordinates:
  fixes i w h :: nat
  assumes "i < 4 * w * h"
  shows "(i div 4) mod w < w" and "(i div 4) div w < h" and "(i div 4) div w * w + (i div 4) mod w = i div 4"
proof -
  from assms have "i < (h * w) * 4"
    by (simp add: ac_simps)
  then have p: "i div 4 < h * w"
    by (rule less_mult_imp_div_less)
  then have "0 < w"
    by (cases w) simp_all
  then show "(i div 4) mod w < w"
    by simp
  from p show "(i div 4) div w < h"
    by (rule less_mult_imp_div_less)
  show "(i div 4) div w * w + (i div 4) mod w = i div 4"
    by simp
qed

lemma clearRect_full:
  assumes "wf_canvas c"
  shows "cdata (clearRect 0 0 (cwidth c) (cheight c) c) = replicate (length (cdata c)) 0"
proof (rule nth_equalityI)
  show "length (cdata (clearRect 0 0 (cwidth c) (cheight c) c)) = length (replicate (length (cdata c)) (0::u8))"
    by simp
next
  fix i
  assume "i < length (cdata (clearRect 0 0 (cwidth c) (cheight c) c))"
  then have i: "i < length (cdata c)"
    by simp
  with assms have "i < 4 * cwidth c * cheight c"
    by (simp add: wf_canvas_def)
  from pixel_coordinates(1,2) [OF this] i
  show "cdata (clearRect 0 0 (cwidth c) (cheight c) c) ! i = replicate (length (cdata c)) 0 ! i"
    by (simp add: clearRect_def)
qed

lemma drawImage_image_simps [simp]:
  "cwidth (drawImage_image r img dw dh c) = cwidth c"
  "cheight (drawImage_image r img dw dh c) = cheight c"
  "cctx (drawImage_image r img dw dh c) = cctx c"
  "length (cdata (drawImage_image r img dw dh c)) = length (cdata c)"
  by (simp_all add: drawImage_image_def)

lemma handleImageUpload_simps:
  "imgCanvas (handleImageUpload r img s) =
     (case final_size (iwidth img) (iheight img) of
        (fw, fh) \<Rightarrow> drawImage_image r img fw fh (resize fw fh (imgCanvas s)))"
  "maskCanvas (handleImageUpload r img s) =
     (case final_size (iwidth img) (iheight img) of
        (fw, fh) \<Rightarrow> clearRect 0 0 (to_dimension fw 300) (to_dimension fh 150) (resize fw fh (maskCanvas s)))"
  "resultCanvas (handleImageUpload r img s) =
     (case final_size (iwidth img) (iheight img) of (fw, fh) \<Rightarrow> resize fw fh (resultCanvas s))"
  "imageLoaded (handleImageUpload r img s) = True"
  "hasResult (handleImageUpload r img s) = False"
  "tool (handleImageUpload r img s) = tool s"
  "brushSize (handleImageUpload r img s) = brushSize s"
  "isDrawing (handleImageUpload r img s) = isDrawing s"
  "prompt (handleImageUpload r img s) = prompt s"
  by (simp_all add: handleImageUpload_def resizeCanvases_def clearMask_def Let_def split_def)

section \<open>Uploading an image\<close>

text \<open>C5: whatever the session was before, after an image is uploaded \<open>hasResult\<close> is
  false, the Mask Buffer has the width and height of the Image Buffer (as stored, after any
  downscaling), and every byte of the Mask Buffer is zero: every pixel \<open>p\<close> has alpha 0.\<close>

theorem upload_resets:
  "hasResult (handleImageUpload resample img s) = False
   \<and> cwidth (maskCanvas (handleImageUpload resample img s)) = cwidth (imgCanvas (handleImageUpload resample img s))
   \<and> cheight (maskCanvas (handleImageUpload resample img s)) = cheight (imgCanvas (handleImageUpload resample img s))
   \<and> cdata (maskCanvas (handleImageUpload resample img s)) =
       replicate (4 * cwidth (imgCanvas (handleImageUpload resample img s))
                    * cheight (imgCanvas (handleImageUpload resample img s))) 0
   \<and> alpha_at (cdata (maskCanvas (handleImageUpload resample img s))) p = 0"
proof -
  obtain fw fh where f: "final_size (iwidth img) (iheight img) = (fw, fh)"
    by (cases "final_size (iwidth img) (iheight img)")
  let ?n = "4 * to_dimension fw 300 * to_dimension fh 150"
  have d: "cdata (maskCanvas (handleImageUpload resample img s)) = replicate ?n 0"
    by (simp add: handleImageUpload_simps f clearRect_blank)
  have "alpha_at (replicate ?n 0) p = 0"
    by (simp add: alpha_at_def byte_at_def)
  with d show ?thesis
    by (simp add: handleImageUpload_simps f)
qed

section \<open>Painting\<close>

lemma alpha_pixel_at: "alpha (pixel_at xs p) = alpha_at xs p"
  by (simp add: alpha_def alpha_at_def pixel_at_def)

lemma alpha_at_outside: "\<not> 4 * p + 3 < length xs \<Longrightarrow> alpha_at xs p = 0"
  by (simp add: alpha_at_def byte_at_def)

lemma brush_alpha: "alpha_at xs p \<le> alpha_at (paint_pixels SourceOver src xs) p"
proof (cases "4 * p + 3 < length xs")
  case True
  then show ?thesis
    using source_over_alpha [of "pixel_at xs p" "src p"]
    by (simp add: alpha_pixel_at [symmetric] pixel_at_paint_pixels)
next
  case False
  then show ?thesis
    by (simp add: alpha_at_outside)
qed

lemma eraser_alpha: "alpha_at (paint_pixels DestinationOut src xs) p \<le> alpha_at xs p"
proof (cases "4 * p + 3 < length xs")
  case True
  then show ?thesis
    using destination_out_alpha [of "src p" "pixel_at xs p"]
    by (simp add: alpha_pixel_at [symmetric] pixel_at_paint_pixels)
next
  case False
  then show ?thesis
    by (simp add: alpha_at_outside)
qed

lemma path_ops_simps [simp]:
  "globalCompositeOperation (lineTo x y cx) = globalCompositeOperation cx"
  "strokeStyle (lineTo x y cx) = strokeStyle cx"
  "globalCompositeOperation (moveTo x y cx) = globalCompositeOperation cx"
  "globalCompositeOperation (beginPath cx) = globalCompositeOperation cx"
  "globalCompositeOperation (set_lineWidth v cx) = globalCompositeOperation cx"
  by (simp_all add: lineTo_def moveTo_def beginPath_def set_lineWidth_def split: option.splits)

lemma stroke_simps [simp]:
  "cwidth (stroke raster c) = cwidth c"
  "cheight (stroke raster c) = cheight c"
  "cctx (stroke raster c) = cctx c"
  "length (cdata (stroke raster c)) = length (cdata c)"
  by (simp_all add: stroke_def)

lemma paint_mask:
  "\<exists>src. cdata (maskCanvas (paint raster rect e s)) =
     paint_pixels (if tool s = Brush then SourceOver else DestinationOut) src (cdata (maskCanvas s))"
  by (simp add: paint_def Let_def stroke_def) blast

lemma paint_frame [simp]:
  "cwidth (maskCanvas (paint raster rect e s)) = cwidth (maskCanvas s)"
  "cheight (maskCanvas (paint raster rect e s)) = cheight (maskCanvas s)"
  "length (cdata (maskCanvas (paint raster rect e s))) = length (cdata (maskCanvas s))"
  "imgCanvas (paint raster rect e s) = imgCanvas s"
  "resultCanvas (paint raster rect e s) = resultCanvas s"
  "imageLoaded (paint raster rect e s) = imageLoaded s"
  "hasResult (paint raster rect e s) = hasResult s"
  "tool (paint raster rect e s) = tool s"
  "prompt (paint raster rect e s) = prompt s"
  by (simp_all add: paint_def Let_def)

text \<open>C2: for every mask and every paint operation (whatever the pointer position, the
  layout and the coverage the rasteriser reports), with the eraser the alpha of every pixel
  \<open>p\<close> of the Mask Buffer after the operation is at most its alpha before, and with the
  brush the alpha of every pixel after the operation is at least its alpha before.\<close>

theorem paint_alpha_monotone:
  "(tool s = Eraser \<longrightarrow>
      alpha_at (cdata (maskCanvas (paint raster rect e s))) p \<le> alpha_at (cdata (maskCanvas s)) p)
   \<and> (tool s = Brush \<longrightarrow>
      alpha_at (cdata (maskCanvas s)) p \<le> alpha_at (cdata (maskCanvas (paint raster rect e s))) p)"
proof -
  obtain src where
    "cdata (maskCanvas (paint raster rect e s)) =
       paint_pixels (if tool s = Brush then SourceOver else DestinationOut) src (cdata (maskCanvas s))"
    using paint_mask by blast
  then show ?thesis
    by (simp add: brush_alpha eraser_alpha)
qed


section \<open>The example session, evaluated\<close>

lemma floor_rat_numeral [simp]: "\<lfloor>numeral a / numeral b :: rat\<rfloor> = numeral a div numeral b"
  by (metis floor_divide_of_int_eq of_int_numeral)

lemma final_size_small: "w \<le> 2048 \<Longrightarrow> final_size w h = (of_nat w, of_nat h)"
  by (simp add: final_size_def)

lemma final_size_photo: "final_size (iwidth photo) (iheight photo) = (2, 1)"
  by (simp add: final_size_small photo_def)

lemma dims: "to_dimension 2 300 = 2" "to_dimension 1 150 = 1"
  by (simp_all add: to_dimension_def)

lemmas pixel_eval = paint_pixels_def pixel_at_def byte_at_def upt_rec [of 0] upt_rec [of "Suc _"]
  mix_def mul255_def transparent_def through_alpha_def unpremultiply_def Let_def

lemmas path_eval = lineTo_def moveTo_def beginPath_def set_lineWidth_def lineless_def

lemma replicate_8: "replicate 8 x = [x, x, x, x, x, x, x, x]"
  by (simp add: numeral_eq_Suc)

lemma loaded_img: "cdata (imgCanvas loaded) = [250, 240, 230, 255, 10, 20, 30, 255]"
proof -
  have "cdata (imgCanvas loaded) =
    paint_pixels SourceOver (pixel_at [250, 240, 230, 255, 10, 20, 30, 255]) (replicate 8 0)"
    by (simp add: loaded_def handleImageUpload_simps final_size_photo dims drawImage_image_def
        default_ctx_def copy_pixels_def) (simp add: photo_def)
  then show ?thesis
    by (simp add: replicate_8 pixel_eval)
qed

lemma loaded_mask: "cdata (maskCanvas loaded) = [0, 0, 0, 0, 0, 0, 0, 0]"
proof -
  have "cdata (maskCanvas loaded) = replicate 8 0"
    by (simp add: loaded_def handleImageUpload_simps final_size_photo dims clearRect_blank [where n = 8])
  then show ?thesis
    by (simp only: replicate_8)
qed

lemma loaded_flags:
  "imageLoaded loaded" "tool loaded = Brush" "prompt loaded = []" "\<not> hasResult loaded"
  "brushSize loaded = 30"
  by (simp_all add: loaded_def handleImageUpload_simps page_def)

lemma loaded_maskCanvas:
  "maskCanvas loaded = \<lparr>cwidth = 2, cheight = 1, cdata = [0, 0, 0, 0, 0, 0, 0, 0], cctx = default_ctx\<rparr>"
  by (rule canvas.equality)
    (simp_all add: loaded_mask, simp_all add: loaded_def handleImageUpload_simps final_size_photo dims)

lemma pressed_maskCanvas:
  "maskCanvas pressed =
     \<lparr>cwidth = 2, cheight = 1, cdata = [0, 0, 0, 0, 0, 0, 0, 0],
      cctx = \<lparr>lineWidth = 30, lineCap = RoundCap, lineJoin = RoundJoin,
               globalCompositeOperation = SourceOver, strokeStyle = (255, 50, 50, 255),
               path = [[(1 / 2, 1 / 2)]]\<rparr>\<rparr>"
  by (simp add: pressed_def startDraw_def loaded_flags paint_def stroke_def loaded_maskCanvas
      default_ctx_def layout_def click_def dab_def path_eval pixel_eval)

lemma pressed_flags: "tool pressed = Brush" "isDrawing pressed" "imageLoaded pressed" "brushSize pressed = 30"
  by (simp_all add: pressed_def startDraw_def loaded_flags paint_def Let_def)

lemma dragged_maskCanvas:
  "maskCanvas (paint dab layout move pressed) =
     \<lparr>cwidth = 2, cheight = 1, cdata = [255, 50, 50, 255, 0, 0, 0, 0],
      cctx = \<lparr>lineWidth = 30, lineCap = RoundCap, lineJoin = RoundJoin,
               globalCompositeOperation = SourceOver, strokeStyle = (255, 50, 50, 255),
               path = [[(3 / 2, 1 / 2)]]\<rparr>\<rparr>"
  by (simp add: pressed_flags paint_def stroke_def pressed_maskCanvas
      layout_def move_def dab_def path_eval pixel_eval)

lemma masked_maskCanvas:
  "maskCanvas masked =
     \<lparr>cwidth = 2, cheight = 1, cdata = [255, 50, 50, 255, 0, 0, 0, 0],
      cctx = \<lparr>lineWidth = 30, lineCap = RoundCap, lineJoin = RoundJoin,
               globalCompositeOperation = SourceOver, strokeStyle = (255, 50, 50, 255),
               path = []\<rparr>\<rparr>"
  by (simp add: masked_def stopDraw_def draw_def pressed_flags dragged_maskCanvas beginPath_def)

lemma masked_mask: "cdata (maskCanvas masked) = [255, 50, 50, 255, 0, 0, 0, 0]"
  by (simp add: masked_maskCanvas)

lemma masked_flags: "imageLoaded masked" "brushSize masked = 30"
  by (simp_all add: masked_def stopDraw_def draw_def pressed_flags paint_def Let_def)

lemma erasing_maskCanvas:
  "maskCanvas erasing =
     \<lparr>cwidth = 2, cheight = 1, cdata = [255, 50, 50, 255, 0, 0, 0, 0],
      cctx = \<lparr>lineWidth = 30, lineCap = RoundCap, lineJoin = RoundJoin,
               globalCompositeOperation = DestinationOut, strokeStyle = (0, 0, 0, 255),
               path = [[(1 / 2, 1 / 2)]]\<rparr>\<rparr>"
  by (simp add: erasing_def startDraw_def setTool_def masked_flags paint_def stroke_def
      masked_maskCanvas layout_def click_def dab_def path_eval pixel_eval)

lemma erasing_flags: "tool erasing = Eraser" "brushSize erasing = 30"
  by (simp_all add: erasing_def startDraw_def setTool_def masked_flags paint_def Let_def)

lemma erased_mask:
  "cdata (maskCanvas (paint dab layout move erasing)) = [0, 0, 0, 0, 0, 0, 0, 0]"
  by (simp add: erasing_flags paint_def stroke_def erasing_maskCanvas
      layout_def move_def dab_def path_eval pixel_eval)

theorem generate_without_prompt_witness:
  "imageLoaded loaded \<and> prompt loaded = []
   \<and> runGeneration loaded = (Some (ValidationError ''Please enter a prompt describing the change.''), loaded)"
  using generate_without_prompt [OF loaded_flags(1) loaded_flags(3)] loaded_flags(1) loaded_flags(3)
  by simp

theorem paint_alpha_monotone_witness:
  "tool pressed = Brush
   \<and> alpha_at (cdata (maskCanvas pressed)) 0 \<le> alpha_at (cdata (maskCanvas (paint dab layout move pressed))) 0
   \<and> alpha_at (cdata (maskCanvas pressed)) 0 = 0
   \<and> alpha_at (cdata (maskCanvas (paint dab layout move pressed))) 0 = 255
   \<and> tool erasing = Eraser
   \<and> alpha_at (cdata (maskCanvas (paint dab layout move erasing))) 0
        \<le> alpha_at (cdata (maskCanvas erasing)) 0
   \<and> alpha_at (cdata (maskCanvas erasing)) 0 = 255
   \<and> alpha_at (cdata (maskCanvas (paint dab layout move erasing))) 0 = 0"
proof -
  have b: "tool pressed = Brush"
    by (rule pressed_flags)
  have e: "tool erasing = Eraser"
    by (rule erasing_flags)
  from paint_alpha_monotone [of pressed dab layout move 0]
    paint_alpha_monotone [of erasing dab layout move 0] b e
  show ?thesis
    by (simp add: pressed_maskCanvas dragged_maskCanvas erasing_maskCanvas erased_mask
        alpha_at_def byte_at_def)
qed

section \<open>The simulated generation\<close>

lemma length_simulate [simp]: "length (simulate m r i) = length r"
proof (induction m r i rule: simulate.induct)
  case (1 m r i)
  show ?case
  proof (cases "i < length m")
    case True
    with 1 show ?thesis
      by (subst simulate.simps) (simp add: Let_def)
  next
    case False
    then show ?thesis
      by (subst simulate.simps) simp
  qed
qed

lemma painted_arr_get: "i < length m \<Longrightarrow> painted (arr_get m i) \<longleftrightarrow> m ! i \<noteq> 0"
  by (simp add: painted_def arr_get_def unat_gt_0)

lemma shifted_arr_get: "i < length r \<Longrightarrow> shifted (arr_get r i) k = clamp8 ((unat (r ! i) + k) mod 255)"
  by (simp add: shifted_def arr_get_def)

lemma simulate_step:
  assumes "i < length m" and "length r = length m" and "4 dvd length m" and "4 dvd i"
  shows "simulate m r i =
    simulate m (if m ! (i + 3) \<noteq> 0
                then r[i := clamp8 ((unat (r ! i) + 50) mod 255),
                       i + 1 := clamp8 ((unat (r ! (i + 1)) + 20) mod 255),
                       i + 2 := 200]
                else r) (i + 4)"
proof -
  from assms have "i + 3 < length m"
    by (elim dvdE) simp
  then have "i < length r" "i + 1 < length r" "i + 3 < length m"
    using assms by simp_all
  then show ?thesis
    using assms(1) by (subst simulate.simps) (simp add: painted_arr_get shifted_arr_get Let_def)
qed

lemma simulate_done: "\<not> i < length m \<Longrightarrow> simulate m r i = r"
  by (subst simulate.simps) simp

lemma simulate_nth:
  assumes "length r = length m" and "4 dvd length m" and "4 dvd i" and "j < length r"
  shows "simulate m r i ! j =
    (if i \<le> j \<and> m ! (4 * (j div 4) + 3) \<noteq> 0 then fake_channel (j mod 4) (r ! j) else r ! j)"
  using assms
proof (induction "length m - i" arbitrary: r i rule: less_induct)
  case less
  show ?case
  proof (cases "i < length m")
    case False
    with less.prems show ?thesis
      by (simp add: simulate_done)
  next
    case True
    define r' where "r' =
      (if m ! (i + 3) \<noteq> 0
       then r[i := clamp8 ((unat (r ! i) + 50) mod 255),
              i + 1 := clamp8 ((unat (r ! (i + 1)) + 20) mod 255),
              i + 2 := 200]
       else r)"
    have step: "simulate m r i = simulate m r' (i + 4)"
      unfolding r'_def using True less.prems by (intro simulate_step) simp_all
    have len: "length r' = length m"
      using less.prems by (simp add: r'_def)
    have "length m - (i + 4) < length m - i"
      using True by simp
    from less.hyps [OF this len] less.prems len
    have ih: "simulate m r' (i + 4) ! j =
      (if i + 4 \<le> j \<and> m ! (4 * (j div 4) + 3) \<noteq> 0 then fake_channel (j mod 4) (r' ! j) else r' ! j)"
      by simp
    from \<open>4 dvd i\<close> obtain k where k: "i = 4 * k"
      by (elim dvdE)
    from less.prems True k have in_range: "4 * k + 3 < length r"
      by (elim dvdE) simp
    have res: "simulate m r i ! j =
      (if i + 4 \<le> j \<and> m ! (4 * (j div 4) + 3) \<noteq> 0 then fake_channel (j mod 4) (r' ! j) else r' ! j)"
      by (simp only: step ih)
    consider "j < i" | "i + 4 \<le> j" | "j = 4 * k" | "j = 4 * k + 1" | "j = 4 * k + 2" | "j = 4 * k + 3"
      using k by linarith
    then show ?thesis
    proof cases
      case 1
      then have "r' ! j = r ! j"
        by (simp add: r'_def)
      with 1 res show ?thesis
        by simp
    next
      case 2
      then have "r' ! j = r ! j"
        by (simp add: r'_def)
      with 2 res show ?thesis
        by simp
    next
      case 3
      with in_range have "r' ! j = (if m ! (4 * k + 3) \<noteq> 0 then fake_channel 0 (r ! j) else r ! j)"
        by (simp add: r'_def k fake_channel_def)
      with 3 res show ?thesis
        by (simp add: k div4_facts)
    next
      case 4
      with in_range have "r' ! j = (if m ! (4 * k + 3) \<noteq> 0 then fake_channel 1 (r ! j) else r ! j)"
        by (simp add: r'_def k fake_channel_def)
      with 4 res show ?thesis
        by (simp add: k div4_facts)
    next
      case 5
      with in_range have "r' ! j = (if m ! (4 * k + 3) \<noteq> 0 then fake_channel 2 (r ! j) else r ! j)"
        by (simp add: r'_def k fake_channel_def)
      with 5 res show ?thesis
        by (simp add: k div4_facts)
    next
      case 6
      with in_range have "r' ! j = (if m ! (4 * k + 3) \<noteq> 0 then fake_channel 3 (r ! j) else r ! j)"
        by (simp add: r'_def k fake_channel_def)
      with 6 res show ?thesis
        by (simp add: k div4_facts)
    qed
  qed
qed

section \<open>Copying between canvases and image data\<close>

lemma whole_pixel:
  fixes i n :: nat
  assumes "i < n" and "4 dvd n"
  shows "4 * (i div 4) + 3 < n"
  using assms by (elim dvdE) (simp, presburger)

lemma channel_pixel_at:
  assumes "i < length xs" and "4 dvd length xs"
  shows "channel (pixel_at xs (i div 4)) (i mod 4) = xs ! i"
proof -
  from assms have r: "4 * (i div 4) + 3 < length xs"
    by (rule whole_pixel)
  have i: "i = 4 * (i div 4) + i mod 4"
    by simp
  have "i mod 4 = 0 \<or> i mod 4 = 1 \<or> i mod 4 = 2 \<or> i mod 4 = 3"
    by presburger
  then show ?thesis
  proof (elim disjE)
    assume m: "i mod 4 = 0"
    with i have "byte_at xs (4 * (i div 4)) = xs ! i"
      using assms(1) by (simp add: byte_at_def)
    with m show ?thesis
      by (simp add: pixel_at_def)
  next
    assume m: "i mod 4 = 1"
    with i have "byte_at xs (4 * (i div 4) + 1) = xs ! i"
      using assms(1) by (simp add: byte_at_def)
    with m show ?thesis
      by (simp add: pixel_at_def)
  next
    assume m: "i mod 4 = 2"
    with i have "byte_at xs (4 * (i div 4) + 2) = xs ! i"
      using assms(1) by (simp add: byte_at_def)
    with m show ?thesis
      by (simp add: pixel_at_def)
  next
    assume m: "i mod 4 = 3"
    with i have "byte_at xs (4 * (i div 4) + 3) = xs ! i"
      using assms(1) by (simp add: byte_at_def)
    with m show ?thesis
      by (simp add: pixel_at_def)
  qed
qed

lemma pixel_at_replicate: "pixel_at (replicate n 0) p = transparent"
  by (simp add: pixel_at_def byte_at_def transparent_def)

lemma mix_source_only:
  assumes "0 < w"
  shows "mix c w d 0 = c"
proof -
  have "w div 2 < w"
    using assms by simp
  then have "(unat c * w + w div 2) div w = unat c"
    using assms by simp
  then show ?thesis
    by (simp add: mix_def)
qed

lemma composite_over_clear:
  assumes "alpha s = 0 \<longrightarrow> s = transparent"
  shows "composite SourceOver s transparent = s"
proof -
  obtain sr sg sb sa where s: "s = (sr, sg, sb, sa)" by (cases s)
  show ?thesis
  proof (cases "unat sa = 0")
    case True
    with assms s show ?thesis
      by (simp add: alpha_def transparent_def mul255_def)
  next
    case False
    then have "0 < 255 * unat sa"
      by simp
    with False show ?thesis
      by (simp add: s transparent_def mul255_def mix_source_only)
  qed
qed

lemma stored_over_clear: "stored (composite SourceOver s transparent) = stored s"
proof (cases "alpha s = 0")
  case True
  obtain sr sg sb sa where s: "s = (sr, sg, sb, sa)" by (cases s)
  from True have "composite SourceOver s transparent = transparent"
    by (simp add: s alpha_def transparent_def mul255_def)
  with True show ?thesis
    by (simp add: stored_clear)
next
  case False
  then show ?thesis
    by (simp add: composite_over_clear)
qed

lemma storableD:
  assumes "storable xs" and "4 * p + 3 < length xs"
  shows "stored (pixel_at xs p) = pixel_at xs p"
proof -
  from assms(2) have "p < length xs div 4"
    by simp
  with assms(1) show ?thesis
    by (simp add: storable_def list_all_iff)
qed

lemma storableI:
  assumes "\<And>p. 4 * p + 3 < length xs \<Longrightarrow> stored (pixel_at xs p) = pixel_at xs p"
  shows "storable xs"
proof -
  have "stored (pixel_at xs p) = pixel_at xs p" if "p < length xs div 4" for p
    using that by (intro assms) simp
  then show ?thesis
    by (simp add: storable_def list_all_iff)
qed

lemma length_stored_data [simp]: "length (stored_data xs) = length xs"
  by (simp add: stored_data_def)

lemma byte_at_stored_data:
  "i < length xs \<Longrightarrow>
   byte_at (stored_data xs) i = channel (stored (pixel_at xs (i div 4))) (i mod 4)"
  by (simp add: byte_at_def stored_data_def)

lemma pixel_at_stored_data:
  assumes "4 * p + 3 < length xs"
  shows "pixel_at (stored_data xs) p = stored (pixel_at xs p)"
proof -
  from assms have "4 * p < length xs" "4 * p + 1 < length xs" "4 * p + 2 < length xs"
    by simp_all
  with assms show ?thesis
    by (simp add: pixel_at_def [of "stored_data xs"] byte_at_stored_data div4_facts channel_tuple)
qed

lemma stored_data_storable:
  assumes "storable xs" and "4 dvd length xs"
  shows "stored_data xs = xs"
proof (rule nth_equalityI)
  show "length (stored_data xs) = length xs"
    by simp
next
  fix i
  assume "i < length (stored_data xs)"
  then have i: "i < length xs"
    by simp
  from i assms(2) have "4 * (i div 4) + 3 < length xs"
    by (rule whole_pixel)
  with assms(1) have "stored (pixel_at xs (i div 4)) = pixel_at xs (i div 4)"
    by (rule storableD)
  with i assms(2) show "stored_data xs ! i = xs ! i"
    by (simp add: stored_data_def channel_pixel_at)
qed

lemma drawImage_canvas_copy:
  assumes "wf_canvas src" and "wf_canvas c" and "same_size c src"
    and "globalCompositeOperation (cctx c) = SourceOver"
    and "cdata c = replicate (length (cdata c)) 0"
    and "storable (cdata src)"
    and "0 < cwidth src" and "0 < cheight src"
  shows "drawImage_canvas src c = Inr (c\<lparr>cdata := cdata src\<rparr>)"
proof -
  let ?w = "cwidth src" and ?h = "cheight src"
  have len: "length (cdata c) = 4 * ?w * ?h" "length (cdata src) = 4 * ?w * ?h"
    using assms(1-3) by (simp_all add: wf_canvas_def same_size_def)
  have "map (\<lambda>i. let p = i div 4; x = p mod cwidth c; y = p div cwidth c
                  in if x < cwidth src \<and> y < cheight src
                     then channel (stored (composite (globalCompositeOperation (cctx c))
                            (pixel_at (cdata src) (y * cwidth src + x)) (pixel_at (cdata c) p))) (i mod 4)
                     else cdata c ! i)
           [0..<length (cdata c)] = cdata src"
  proof (rule nth_equalityI)
    show "length (map (\<lambda>i. let p = i div 4; x = p mod cwidth c; y = p div cwidth c
                  in if x < cwidth src \<and> y < cheight src
                     then channel (stored (composite (globalCompositeOperation (cctx c))
                            (pixel_at (cdata src) (y * cwidth src + x)) (pixel_at (cdata c) p))) (i mod 4)
                     else cdata c ! i)
           [0..<length (cdata c)]) = length (cdata src)"
      by (simp add: len)
  next
    fix i
    assume "i < length (map (\<lambda>i. let p = i div 4; x = p mod cwidth c; y = p div cwidth c
                  in if x < cwidth src \<and> y < cheight src
                     then channel (stored (composite (globalCompositeOperation (cctx c))
                            (pixel_at (cdata src) (y * cwidth src + x)) (pixel_at (cdata c) p))) (i mod 4)
                     else cdata c ! i)
           [0..<length (cdata c)])"
    then have i: "i < 4 * ?w * ?h"
      by (simp add: len)
    note xy = pixel_coordinates [OF i]
    have dz: "pixel_at (cdata c) (i div 4) = transparent"
      by (subst assms(5)) (rule pixel_at_replicate)
    have "i < length (cdata src)" and "4 dvd length (cdata src)"
      using i by (simp_all add: len)
    then have r: "4 * (i div 4) + 3 < length (cdata src)"
      by (rule whole_pixel)
    have "stored (composite SourceOver (pixel_at (cdata src) (i div 4)) transparent) = pixel_at (cdata src) (i div 4)"
      using storableD [OF assms(6) r] by (simp add: stored_over_clear)
    moreover have "channel (pixel_at (cdata src) (i div 4)) (i mod 4) = cdata src ! i"
      using i len by (intro channel_pixel_at) simp_all
    ultimately show "map (\<lambda>i. let p = i div 4; x = p mod cwidth c; y = p div cwidth c
                  in if x < cwidth src \<and> y < cheight src
                     then channel (stored (composite (globalCompositeOperation (cctx c))
                            (pixel_at (cdata src) (y * cwidth src + x)) (pixel_at (cdata c) p))) (i mod 4)
                     else cdata c ! i)
           [0..<length (cdata c)] ! i = cdata src ! i"
      using i xy assms(3,4) dz by (simp add: len same_size_def Let_def)
  qed
  with assms(7,8) show ?thesis
    by (simp add: drawImage_canvas_def)
qed

lemma getImageData_full:
  assumes "wf_canvas c" and "0 < cwidth c" and "0 < cheight c"
    and "alloc (4 * cwidth c * cheight c)"
  shows "getImageData alloc 0 0 (cwidth c) (cheight c) c =
    Inr \<lparr>dwidth = cwidth c, dheight = cheight c, ddata = cdata c\<rparr>"
proof -
  have "map (\<lambda>i. let p = i div 4; x = 0 + p mod cwidth c; y = 0 + p div cwidth c
                  in if x < cwidth c \<and> y < cheight c
                     then byte_at (cdata c) (4 * (y * cwidth c + x) + i mod 4) else 0)
            [0..<4 * cwidth c * cheight c] = cdata c"
  proof (rule nth_equalityI)
    show "length (map (\<lambda>i. let p = i div 4; x = 0 + p mod cwidth c; y = 0 + p div cwidth c
                  in if x < cwidth c \<and> y < cheight c
                     then byte_at (cdata c) (4 * (y * cwidth c + x) + i mod 4) else 0)
            [0..<4 * cwidth c * cheight c]) = length (cdata c)"
      using assms(1) by (simp add: wf_canvas_def)
  next
    fix i
    assume "i < length (map (\<lambda>i. let p = i div 4; x = 0 + p mod cwidth c; y = 0 + p div cwidth c
                  in if x < cwidth c \<and> y < cheight c
                     then byte_at (cdata c) (4 * (y * cwidth c + x) + i mod 4) else 0)
            [0..<4 * cwidth c * cheight c])"
    then have i: "i < 4 * cwidth c * cheight c"
      by simp
    note xy = pixel_coordinates [OF i]
    have "byte_at (cdata c) (4 * (i div 4) + i mod 4) = cdata c ! i"
      using i assms(1) by (simp add: byte_at_def wf_canvas_def)
    with i xy show "map (\<lambda>i. let p = i div 4; x = 0 + p mod cwidth c; y = 0 + p div cwidth c
                  in if x < cwidth c \<and> y < cheight c
                     then byte_at (cdata c) (4 * (y * cwidth c + x) + i mod 4) else 0)
            [0..<4 * cwidth c * cheight c] ! i = cdata c ! i"
      by (simp add: Let_def)
  qed
  with assms(2,3,4) show ?thesis
    by (simp add: getImageData_def)
qed

lemma putImageData_full:
  assumes "wf_canvas c" and "dwidth d = cwidth c" and "dheight d = cheight c"
    and "length (ddata d) = length (cdata c)"
  shows "putImageData d 0 0 c = c\<lparr>cdata := stored_data (ddata d)\<rparr>"
proof -
  have "map (\<lambda>i. let p = i div 4; x = p mod cwidth c; y = p div cwidth c
                  in if 0 \<le> x \<and> x < 0 + dwidth d \<and> 0 \<le> y \<and> y < 0 + dheight d
                     then channel (stored (pixel_at (ddata d) ((y - 0) * dwidth d + (x - 0)))) (i mod 4)
                     else cdata c ! i)
           [0..<length (cdata c)] = stored_data (ddata d)"
  proof (rule nth_equalityI)
    show "length (map (\<lambda>i. let p = i div 4; x = p mod cwidth c; y = p div cwidth c
                  in if 0 \<le> x \<and> x < 0 + dwidth d \<and> 0 \<le> y \<and> y < 0 + dheight d
                     then channel (stored (pixel_at (ddata d) ((y - 0) * dwidth d + (x - 0)))) (i mod 4)
                     else cdata c ! i)
           [0..<length (cdata c)]) = length (stored_data (ddata d))"
      using assms(4) by simp
  next
    fix i
    assume "i < length (map (\<lambda>i. let p = i div 4; x = p mod cwidth c; y = p div cwidth c
                  in if 0 \<le> x \<and> x < 0 + dwidth d \<and> 0 \<le> y \<and> y < 0 + dheight d
                     then channel (stored (pixel_at (ddata d) ((y - 0) * dwidth d + (x - 0)))) (i mod 4)
                     else cdata c ! i)
           [0..<length (cdata c)])"
    then have l: "i < length (cdata c)"
      by simp
    with assms(1) have i: "i < 4 * cwidth c * cheight c"
      by (simp add: wf_canvas_def)
    note xy = pixel_coordinates [OF i]
    from l xy assms(2,3,4) show "map (\<lambda>i. let p = i div 4; x = p mod cwidth c; y = p div cwidth c
                  in if 0 \<le> x \<and> x < 0 + dwidth d \<and> 0 \<le> y \<and> y < 0 + dheight d
                     then channel (stored (pixel_at (ddata d) ((y - 0) * dwidth d + (x - 0)))) (i mod 4)
                     else cdata c ! i)
           [0..<length (cdata c)] ! i = stored_data (ddata d) ! i"
      by (simp add: Let_def stored_data_def)
  qed
  then show ?thesis
    by (simp add: putImageData_def)
qed

section \<open>The invariant\<close>

text \<open>Every session the handlers can produce from a freshly loaded page has well-formed
  bitmaps, an Image Buffer and a Mask Buffer whose pixels are ones a bitmap keeps, the
  default compositing operation on the result canvas, an empty current path on the mask
  canvas while no stroke is being drawn, and, once an image is loaded, three canvases of the
  same size.\<close>

lemma storable_replicate: "storable (replicate n 0)"
  by (simp add: storable_def list_all_iff pixel_at_replicate)

lemma storable_paint_pixels: "storable (paint_pixels op src xs)"
  by (rule storableI) (simp add: pixel_at_paint_pixels)

lemma wf_resize: "wf_canvas (resize w h c)"
  by (simp add: wf_canvas_def)

lemma storable_drawImage_image:
  "storable (cdata (drawImage_image r img dw dh (resize w h c)))"
  by (simp add: drawImage_image_def storable_paint_pixels storable_replicate)

lemma storable_paint: "storable (cdata (maskCanvas (paint raster rect e s)))"
  by (simp add: paint_def Let_def stroke_def storable_paint_pixels)

lemma inv_upload: "session_inv (handleImageUpload r img s)"
proof -
  obtain fw fh where f: "final_size (iwidth img) (iheight img) = (fw, fh)"
    by (cases "final_size (iwidth img) (iheight img)")
  show ?thesis
    by (simp add: session_inv_def handleImageUpload_simps f wf_canvas_def same_size_def
        storable_drawImage_image storable_replicate clearRect_blank default_ctx_def)
qed

lemma inv_initial: "initial s \<Longrightarrow> session_inv s"
  by (simp add: initial_def session_inv_def fresh_canvas_def wf_canvas_def storable_replicate
      default_ctx_def)

lemma inv_flags:
  "session_inv (setTool t s) = session_inv s"
  "session_inv (s\<lparr>brushSize := n\<rparr>) = session_inv s"
  "session_inv (s\<lparr>prompt := txt\<rparr>) = session_inv s"
  "session_inv (s\<lparr>loader_display := d\<rparr>) = session_inv s"
  "session_inv (s\<lparr>can_allocate := f\<rparr>) = session_inv s"
  by (simp_all add: session_inv_def setTool_def)

lemma isDrawing_paint [simp]: "isDrawing (paint raster rect e s) = isDrawing s"
  by (simp add: paint_def Let_def)

lemma inv_paint: "session_inv s \<Longrightarrow> isDrawing s \<Longrightarrow> session_inv (paint raster rect e s)"
  by (simp add: session_inv_def wf_canvas_def same_size_def storable_paint)

lemma inv_draw:
  "session_inv s \<Longrightarrow> session_inv (startDraw raster rect e s)"
  "session_inv s \<Longrightarrow> session_inv (draw raster rect e s)"
  "session_inv s \<Longrightarrow> session_inv (stopDraw s)"
  "session_inv s \<Longrightarrow> session_inv (clearMask s)"
proof -
  assume i: "session_inv s"
  then have "session_inv (s\<lparr>isDrawing := True\<rparr>)"
    by (simp add: session_inv_def)
  then show "session_inv (startDraw raster rect e s)"
    using i by (simp add: startDraw_def inv_paint)
  show "session_inv (draw raster rect e s)"
    using i by (simp add: draw_def inv_paint)
  show "session_inv (stopDraw s)"
    using i by (simp add: stopDraw_def session_inv_def wf_canvas_def same_size_def beginPath_def)
  show "session_inv (clearMask s)"
    using i by (simp add: clearMask_def session_inv_def same_size_def clearRect_full storable_replicate)
      (simp add: wf_canvas_def)
qed

lemma drawImage_canvas_frame:
  assumes "drawImage_canvas src c = Inr c'"
  shows "cwidth c' = cwidth c" and "cheight c' = cheight c" and "cctx c' = cctx c"
    and "length (cdata c') = length (cdata c)"
  using assms by (auto simp add: drawImage_canvas_def split: if_splits)

lemma putImageData_simps [simp]:
  "cwidth (putImageData d x y c) = cwidth c"
  "cheight (putImageData d x y c) = cheight c"
  "cctx (putImageData d x y c) = cctx c"
  "length (cdata (putImageData d x y c)) = length (cdata c)"
  by (simp_all add: putImageData_def)

lemma finish_frame:
  "imgCanvas (snd (runGeneration_finish s)) = imgCanvas s"
  "maskCanvas (snd (runGeneration_finish s)) = maskCanvas s"
  "imageLoaded (snd (runGeneration_finish s)) = imageLoaded s"
  "tool (snd (runGeneration_finish s)) = tool s"
  "brushSize (snd (runGeneration_finish s)) = brushSize s"
  "isDrawing (snd (runGeneration_finish s)) = isDrawing s"
  "prompt (snd (runGeneration_finish s)) = prompt s"
  "loader_display (snd (runGeneration_finish s)) = DisplayNone"
  by (simp_all add: runGeneration_finish_def generation_failed_def Let_def split: sum.splits)

lemma finish_result_frame:
  "cwidth (resultCanvas (snd (runGeneration_finish s))) = cwidth (resultCanvas s)"
  "cheight (resultCanvas (snd (runGeneration_finish s))) = cheight (resultCanvas s)"
  "cctx (resultCanvas (snd (runGeneration_finish s))) = cctx (resultCanvas s)"
  "length (cdata (resultCanvas (snd (runGeneration_finish s)))) = length (cdata (resultCanvas s))"
  by (auto simp add: runGeneration_finish_def generation_failed_def Let_def
      dest: drawImage_canvas_frame split: sum.splits)

lemma inv_finish: "session_inv s \<Longrightarrow> session_inv (snd (runGeneration_finish s))"
  by (simp add: session_inv_def finish_frame finish_result_frame wf_canvas_def same_size_def)

lemma inv_begin: "session_inv s \<Longrightarrow> session_inv (snd (runGeneration_begin s))"
  by (simp add: runGeneration_begin_def inv_flags)

lemma inv_export: "snd (exportImage s) = s"
  by (simp add: exportImage_def Let_def)

theorem reachable_inv: "reachable s \<Longrightarrow> session_inv s"
  by (induction rule: reachable.induct)
    (simp_all add: inv_initial inv_flags inv_upload inv_draw inv_begin inv_finish inv_export)

section \<open>Generation\<close>

lemma clearRect_full_eq:
  assumes "wf_canvas c"
  shows "clearRect 0 0 (cwidth c) (cheight c) c = c\<lparr>cdata := replicate (length (cdata c)) 0\<rparr>"
proof -
  have "clearRect 0 0 (cwidth c) (cheight c) c =
    c\<lparr>cdata := cdata (clearRect 0 0 (cwidth c) (cheight c) c)\<rparr>"
    by (simp add: clearRect_def)
  then show ?thesis
    by (simp only: clearRect_full [OF assms])
qed

lemma finish_copy:
  assumes "session_inv s" and "imageLoaded s"
    and "0 < cwidth (imgCanvas s)" and "0 < cheight (imgCanvas s)"
  shows "drawImage_canvas (imgCanvas s)
      (clearRect 0 0 (cwidth (resultCanvas s)) (cheight (resultCanvas s)) (resultCanvas s)) =
    Inr ((resultCanvas s)\<lparr>cdata := cdata (imgCanvas s)\<rparr>)"
proof -
  let ?i = "imgCanvas s" and ?r = "resultCanvas s"
  from assms(1,2) have wf: "wf_canvas ?i" "wf_canvas ?r"
    and st: "storable (cdata ?i)"
    and op: "globalCompositeOperation (cctx ?r) = SourceOver"
    and sz: "same_size ?r ?i"
    by (simp_all add: session_inv_def)
  define r1 where "r1 = ?r\<lparr>cdata := replicate (length (cdata ?r)) 0\<rparr>"
  have c1: "clearRect 0 0 (cwidth ?r) (cheight ?r) ?r = r1"
    unfolding r1_def by (rule clearRect_full_eq) (rule wf)
  have "drawImage_canvas ?i r1 = Inr (r1\<lparr>cdata := cdata ?i\<rparr>)"
    using wf sz op st assms(3,4)
    by (intro drawImage_canvas_copy) (simp_all add: r1_def wf_canvas_def same_size_def)
  then show ?thesis
    by (simp add: c1) (simp add: r1_def)
qed

lemma finish_success:
  assumes "session_inv s" and "imageLoaded s"
    and "0 < cwidth (imgCanvas s)" and "0 < cheight (imgCanvas s)"
    and "can_allocate s (4 * cwidth (imgCanvas s) * cheight (imgCanvas s))"
  shows "runGeneration_finish s =
    (None, s\<lparr>resultCanvas :=
                 (resultCanvas s)\<lparr>cdata :=
                    stored_data (simulate (cdata (maskCanvas s)) (cdata (imgCanvas s)) 0)\<rparr>,
               resultCanvas_display := DisplayBlock, hasResult := True,
               maskCanvas_opacity := Some 0, loader_display := DisplayNone\<rparr>)"
proof -
  let ?i = "imgCanvas s" and ?m = "maskCanvas s" and ?r = "resultCanvas s"
  from assms(1,2) have wf: "wf_canvas ?i" "wf_canvas ?m" "wf_canvas ?r"
    and sz: "same_size ?m ?i" "same_size ?r ?i"
    by (simp_all add: session_inv_def)
  define r2 where "r2 = ?r\<lparr>cdata := cdata ?i\<rparr>"
  have c2: "drawImage_canvas ?i (clearRect 0 0 (cwidth ?r) (cheight ?r) ?r) = Inr r2"
    unfolding r2_def using assms(1-4) by (rule finish_copy)
  have dims: "cwidth ?m = cwidth ?i" "cheight ?m = cheight ?i"
    "cwidth r2 = cwidth ?i" "cheight r2 = cheight ?i"
    using sz by (simp_all add: same_size_def r2_def)
  have wf2: "wf_canvas r2"
    using wf(1) by (simp add: wf_canvas_def dims) (simp add: r2_def)
  have c3: "getImageData (can_allocate s) 0 0 (cwidth ?m) (cheight ?m) ?m =
    Inr \<lparr>dwidth = cwidth ?m, dheight = cheight ?m, ddata = cdata ?m\<rparr>"
    using wf(2) assms(3,4,5) by (intro getImageData_full) (simp_all add: dims)
  have c4: "getImageData (can_allocate s) 0 0 (cwidth r2) (cheight r2) r2 =
    Inr \<lparr>dwidth = cwidth r2, dheight = cheight r2, ddata = cdata r2\<rparr>"
    using wf2 assms(3,4,5) by (intro getImageData_full) (simp_all add: dims)
  have "length (simulate (cdata ?m) (cdata r2) 0) = length (cdata r2)"
    by (rule length_simulate)
  then have c5: "putImageData \<lparr>dwidth = cwidth r2, dheight = cheight r2,
      ddata = simulate (cdata ?m) (cdata r2) 0\<rparr> 0 0 r2 =
    r2\<lparr>cdata := stored_data (simulate (cdata ?m) (cdata r2) 0)\<rparr>"
    using putImageData_full [OF wf2, of "\<lparr>dwidth = cwidth r2, dheight = cheight r2,
      ddata = simulate (cdata ?m) (cdata r2) 0\<rparr>"] by simp
  have r3: "r2\<lparr>cdata := stored_data (simulate (cdata ?m) (cdata r2) 0)\<rparr> =
    ?r\<lparr>cdata := stored_data (simulate (cdata ?m) (cdata ?i) 0)\<rparr>"
    by (simp add: r2_def)
  show ?thesis
    by (simp add: runGeneration_finish_def c2 c3 c4 c5 r3 Let_def del: One_nat_def)
qed


lemma finish_starved:
  assumes "session_inv s" and "imageLoaded s"
    and "0 < cwidth (imgCanvas s)" and "0 < cheight (imgCanvas s)"
    and "\<not> can_allocate s (4 * cwidth (imgCanvas s) * cheight (imgCanvas s))"
  shows "runGeneration_finish s =
    generation_failed (s\<lparr>resultCanvas := (resultCanvas s)\<lparr>cdata := cdata (imgCanvas s)\<rparr>\<rparr>)"
proof -
  let ?i = "imgCanvas s" and ?m = "maskCanvas s" and ?r = "resultCanvas s"
  from assms(1,2) have sz: "same_size ?m ?i"
    by (simp add: session_inv_def)
  have c2: "drawImage_canvas ?i (clearRect 0 0 (cwidth ?r) (cheight ?r) ?r) =
      Inr (?r\<lparr>cdata := cdata ?i\<rparr>)"
    using assms(1-4) by (rule finish_copy)
  have c3: "getImageData (can_allocate s) 0 0 (cwidth ?m) (cheight ?m) ?m = Inl RangeError"
    using sz assms(3,4,5) by (simp add: getImageData_def same_size_def)
  show ?thesis
    by (simp add: runGeneration_finish_def c2 c3 Let_def del: One_nat_def)
qed

lemma runGeneration_validated:
  assumes "imageLoaded s" and "prompt s \<noteq> []"
  shows "runGeneration s = runGeneration_finish (s\<lparr>loader_display := DisplayFlex\<rparr>)"
  using assms by (simp add: runGeneration_def runGeneration_begin_def)

lemma runGeneration_outcome:
  assumes "runGeneration s = (out, s')"
  shows "(\<exists>msg. out = Some (ValidationError msg)) \<longleftrightarrow> \<not> imageLoaded s \<or> prompt s = []"
proof (cases "imageLoaded s \<and> prompt s \<noteq> []")
  case True
  then have "runGeneration s = runGeneration_finish (s\<lparr>loader_display := DisplayFlex\<rparr>)"
    by (simp add: runGeneration_validated)
  with assms have "out = None \<or> out = Some (GenerationError ''AI Generation failed. Check console.'')"
    by (auto simp add: runGeneration_finish_def generation_failed_def Let_def split: sum.splits)
  with True show ?thesis
    by auto
next
  case False
  with assms show ?thesis
    by (auto simp add: runGeneration_def runGeneration_begin_def split: if_splits)
qed

lemma clamp8_small: "n \<le> 255 \<Longrightarrow> clamp8 n = of_nat n"
  by (simp add: clamp8_def min_def)

lemma alpha_at_nonzero: "4 * p + 3 < length m \<Longrightarrow> alpha_at m p \<noteq> 0 \<longleftrightarrow> m ! (4 * p + 3) \<noteq> 0"
  by (simp add: alpha_at_def byte_at_def unat_eq_0)

lemma pixel_at_simulate:
  assumes "length r = length m" and "4 dvd length m" and "4 * p + 3 < length r"
  shows "pixel_at (simulate m r 0) p =
    (case pixel_at r p of (a, b, c, d) \<Rightarrow>
       if alpha_at m p \<noteq> 0
       then (of_nat ((unat a + 50) mod 255), of_nat ((unat b + 20) mod 255), 200, d)
       else (a, b, c, d))"
proof -
  have n: "simulate m r 0 ! j =
      (if m ! (4 * (j div 4) + 3) \<noteq> 0 then fake_channel (j mod 4) (r ! j) else r ! j)"
    if "j < length r" for j
    using simulate_nth [OF assms(1,2) _ that, of 0] by simp
  from assms(3) have j: "4 * p < length r" "4 * p + 1 < length r" "4 * p + 2 < length r"
    by simp_all
  from assms(1,3) have "4 * p + 3 < length m"
    by simp
  then have a: "alpha_at m p \<noteq> 0 \<longleftrightarrow> m ! (4 * p + 3) \<noteq> 0"
    by (rule alpha_at_nonzero)
  have c: "clamp8 ((unat x + k) mod 255) = of_nat ((unat x + k) mod 255)" for x :: u8 and k
    by (rule clamp8_small) (simp add: less_imp_le)
  show ?thesis
  proof (cases "m ! (4 * p + 3) = 0")
    case True
    with a have "alpha_at m p = 0"
      by simp
    with True assms(3) j show ?thesis
      by (simp add: pixel_at_def byte_at_def n div4_facts)
  next
    case False
    with a have "alpha_at m p \<noteq> 0"
      by simp
    with False assms(3) j show ?thesis
      by (simp add: pixel_at_def byte_at_def n div4_facts fake_channel_def c)
  qed
qed

lemma success_canvas:
  assumes "session_inv s" and "runGeneration s = (None, s')"
    and "0 < cwidth (imgCanvas s)" and "0 < cheight (imgCanvas s)"
  shows "resultCanvas s' =
    (resultCanvas s)\<lparr>cdata := stored_data (simulate (cdata (maskCanvas s)) (cdata (imgCanvas s)) 0)\<rparr>"
proof -
  let ?t = "s\<lparr>loader_display := DisplayFlex\<rparr>"
  from runGeneration_outcome [OF assms(2)] have v: "imageLoaded s" "prompt s \<noteq> []"
    by simp_all
  have inv: "session_inv ?t"
    using assms(1) by (simp add: inv_flags)
  from assms(2) have f: "runGeneration_finish ?t = (None, s')"
    by (simp add: runGeneration_validated v)
  have mem: "can_allocate s (4 * cwidth (imgCanvas s) * cheight (imgCanvas s))"
  proof (rule ccontr)
    assume "\<not> can_allocate s (4 * cwidth (imgCanvas s) * cheight (imgCanvas s))"
    with inv v assms(3,4) have "fst (runGeneration_finish ?t) \<noteq> None"
      by (subst finish_starved) (simp_all add: generation_failed_def)
    with f show False
      by simp
  qed
  have "runGeneration_finish ?t =
    (None, ?t\<lparr>resultCanvas :=
                 (resultCanvas ?t)\<lparr>cdata :=
                    stored_data (simulate (cdata (maskCanvas ?t)) (cdata (imgCanvas ?t)) 0)\<rparr>,
               resultCanvas_display := DisplayBlock, hasResult := True,
               maskCanvas_opacity := Some 0, loader_display := DisplayNone\<rparr>)"
    using inv v assms(3,4) mem by (intro finish_success) simp_all
  with f have "s' = ?t\<lparr>resultCanvas :=
                 (resultCanvas ?t)\<lparr>cdata :=
                    stored_data (simulate (cdata (maskCanvas ?t)) (cdata (imgCanvas ?t)) 0)\<rparr>,
               resultCanvas_display := DisplayBlock, hasResult := True,
               maskCanvas_opacity := Some 0, loader_display := DisplayNone\<rparr>"
    by (simp only: prod.inject)
  then show ?thesis
    by simp
qed

lemma success_pixel:
  assumes "session_inv s" and "runGeneration s = (None, s')"
    and "p < cwidth (imgCanvas s) * cheight (imgCanvas s)"
  shows "pixel_at (cdata (resultCanvas s')) p =
    (case pixel_at (cdata (imgCanvas s)) p of (r, g, b, a) \<Rightarrow>
       if alpha_at (cdata (maskCanvas s)) p \<noteq> 0
       then stored (of_nat ((unat r + 50) mod 255), of_nat ((unat g + 20) mod 255), 200, a)
       else (r, g, b, a))"
proof -
  let ?sim = "simulate (cdata (maskCanvas s)) (cdata (imgCanvas s)) 0"
  from runGeneration_outcome [OF assms(2)] have v: "imageLoaded s" "prompt s \<noteq> []"
    by simp_all
  from assms(3) have "0 < cwidth (imgCanvas s) * cheight (imgCanvas s)"
    by (rule le_less_trans [OF le0])
  then have pos: "0 < cwidth (imgCanvas s)" "0 < cheight (imgCanvas s)"
    by simp_all
  from assms(1,2) pos have r: "resultCanvas s' = (resultCanvas s)\<lparr>cdata := stored_data ?sim\<rparr>"
    by (rule success_canvas)
  from assms(1) v have len: "length (cdata (imgCanvas s)) = 4 * cwidth (imgCanvas s) * cheight (imgCanvas s)"
    "length (cdata (maskCanvas s)) = 4 * cwidth (imgCanvas s) * cheight (imgCanvas s)"
    and st: "storable (cdata (imgCanvas s))"
    by (simp_all add: session_inv_def wf_canvas_def same_size_def)
  from assms(3) have "4 * p + 3 < 4 * (cwidth (imgCanvas s) * cheight (imgCanvas s))"
    by simp
  then have p: "4 * p + 3 < length (cdata (imgCanvas s))"
    by (simp add: len mult.assoc)
  obtain r g b a where px: "pixel_at (cdata (imgCanvas s)) p = (r, g, b, a)"
    by (cases "pixel_at (cdata (imgCanvas s)) p")
  let ?new = "(of_nat ((unat r + 50) mod 255) :: u8, of_nat ((unat g + 20) mod 255) :: u8, 200 :: u8, a)"
  have "pixel_at ?sim p =
    (case pixel_at (cdata (imgCanvas s)) p of (r, g, b, a) \<Rightarrow>
       if alpha_at (cdata (maskCanvas s)) p \<noteq> 0
       then (of_nat ((unat r + 50) mod 255), of_nat ((unat g + 20) mod 255), 200, a)
       else (r, g, b, a))"
    using p by (intro pixel_at_simulate) (simp_all add: len)
  then have sim: "pixel_at ?sim p = (if alpha_at (cdata (maskCanvas s)) p \<noteq> 0 then ?new else (r, g, b, a))"
    by (simp add: px)
  have keep: "stored (r, g, b, a) = (r, g, b, a)"
    using storableD [OF st p] by (simp only: px)
  have "pixel_at (stored_data ?sim) p = stored (pixel_at ?sim p)"
    using p by (intro pixel_at_stored_data) simp
  with sim keep show ?thesis
    by (simp add: r px del: stored.simps)
qed

section \<open>Claims about generation\<close>

text \<open>C1, as the code has it: for every successful generation (from a session satisfying
  the invariant), the Result Buffer has the dimensions of the Image Buffer, and every pixel \<open>p\<close>
  of it is the pixel of the Image Buffer, except that where the Mask Buffer's alpha at \<open>p\<close>
  is not zero the pixel is what the bitmap keeps of
  \<open>((R + 50) mod 255, (G + 20) mod 255, 200, A)\<close>: these very values when the pixel of the
  Image Buffer is opaque, and otherwise the values that multiplying the three colour
  channels by \<open>A\<close> and dividing them by it again leaves.\<close>

theorem generation_result:
  assumes "session_inv s" and "runGeneration s = (None, s')"
    and "p < cwidth (imgCanvas s) * cheight (imgCanvas s)"
  shows "cwidth (resultCanvas s') = cwidth (imgCanvas s)
    \<and> cheight (resultCanvas s') = cheight (imgCanvas s)
    \<and> length (cdata (resultCanvas s')) = length (cdata (imgCanvas s))
    \<and> pixel_at (cdata (resultCanvas s')) p =
        (case pixel_at (cdata (imgCanvas s)) p of (r, g, b, a) \<Rightarrow>
           if alpha_at (cdata (maskCanvas s)) p \<noteq> 0
           then stored (of_nat ((unat r + 50) mod 255), of_nat ((unat g + 20) mod 255), 200, a)
           else (r, g, b, a))
    \<and> (alpha_at (cdata (imgCanvas s)) p = 255 \<longrightarrow>
        pixel_at (cdata (resultCanvas s')) p =
          (case pixel_at (cdata (imgCanvas s)) p of (r, g, b, a) \<Rightarrow>
             if alpha_at (cdata (maskCanvas s)) p \<noteq> 0
             then (of_nat ((unat r + 50) mod 255), of_nat ((unat g + 20) mod 255), 200, a)
             else (r, g, b, a)))"
proof -
  from runGeneration_outcome [OF assms(2)] have v: "imageLoaded s"
    by simp
  from assms(3) have "0 < cwidth (imgCanvas s) * cheight (imgCanvas s)"
    by (rule le_less_trans [OF le0])
  then have pos: "0 < cwidth (imgCanvas s)" "0 < cheight (imgCanvas s)"
    by simp_all
  from assms(1,2) pos have r: "resultCanvas s' =
    (resultCanvas s)\<lparr>cdata := stored_data (simulate (cdata (maskCanvas s)) (cdata (imgCanvas s)) 0)\<rparr>"
    by (rule success_canvas)
  from assms(1) v have "cwidth (resultCanvas s) = cwidth (imgCanvas s)"
    "cheight (resultCanvas s) = cheight (imgCanvas s)"
    "length (cdata (resultCanvas s)) = length (cdata (imgCanvas s))"
    by (simp_all add: session_inv_def wf_canvas_def same_size_def)
  then have size: "cwidth (resultCanvas s') = cwidth (imgCanvas s)"
    "cheight (resultCanvas s') = cheight (imgCanvas s)"
    "length (cdata (resultCanvas s')) = length (cdata (imgCanvas s))"
    using assms(1) v by (simp_all add: r session_inv_def wf_canvas_def)
  obtain r g b a where px: "pixel_at (cdata (imgCanvas s)) p = (r, g, b, a)"
    by (cases "pixel_at (cdata (imgCanvas s)) p")
  let ?new = "(of_nat ((unat r + 50) mod 255) :: u8, of_nat ((unat g + 20) mod 255) :: u8, 200 :: u8, a)"
  from success_pixel [OF assms] have res: "pixel_at (cdata (resultCanvas s')) p =
      (if alpha_at (cdata (maskCanvas s)) p \<noteq> 0 then stored ?new else (r, g, b, a))"
    by (simp add: px del: stored.simps)
  have opaque: "stored ?new = ?new" if "alpha_at (cdata (imgCanvas s)) p = 255"
  proof -
    from that have "alpha (pixel_at (cdata (imgCanvas s)) p) = 255"
      by (simp only: alpha_pixel_at)
    then have "alpha ?new = 255"
      by (simp add: px alpha_def)
    then show ?thesis
      by (rule stored_opaque)
  qed
  from size res opaque show ?thesis
    by (simp add: px del: stored.simps)
qed

text \<open>C9: a successful generate call on a session with an image loaded and a non-empty
  prompt leaves the image canvas and the mask canvas (dimensions, pixel data, drawing state)
  as they were, and with them the tool, the brush size, the drawing flag, \<open>imageLoaded\<close>
  and the prompt: of the buffers and session flags it writes only the Result Buffer and
  \<open>hasResult\<close>.  (It also shows the result canvas, hides the mask canvas and hides the
  loading indicator, which are presentation settings.)\<close>

theorem generation_frame:
  assumes "imageLoaded s" and "prompt s \<noteq> []" and "runGeneration s = (None, s')"
  shows "imgCanvas s' = imgCanvas s \<and> maskCanvas s' = maskCanvas s
    \<and> tool s' = tool s \<and> brushSize s' = brushSize s \<and> isDrawing s' = isDrawing s
    \<and> imageLoaded s' = imageLoaded s \<and> prompt s' = prompt s \<and> hasResult s'
    \<and> s' = s\<lparr>resultCanvas := resultCanvas s', resultCanvas_display := DisplayBlock,
              hasResult := True, maskCanvas_opacity := Some 0,
              loader_display := DisplayNone\<rparr>"
proof -
  from assms have "runGeneration_finish (s\<lparr>loader_display := DisplayFlex\<rparr>) = (None, s')"
    by (simp add: runGeneration_validated)
  then obtain r where "s' = s\<lparr>resultCanvas := r, resultCanvas_display := DisplayBlock,
              hasResult := True, maskCanvas_opacity := Some 0,
              loader_display := DisplayNone\<rparr>"
    by (auto simp add: runGeneration_finish_def generation_failed_def Let_def split: sum.splits)
  then show ?thesis
    by simp
qed


section \<open>The example sessions are reachable\<close>

lemma initial_page: "initial page"
  by (simp add: initial_def page_def fresh_canvas_def blank_canvas_def)


lemma reachable_prompted: "reachable prompted"
  unfolding prompted_def masked_def pressed_def loaded_def
  by (intro reachable.typing reachable.mouseup reachable.mousemove reachable.mousedown
      reachable.upload reachable.init initial_page)


lemma reachable_tinted: "reachable tinted"
  unfolding tinted_def framed_def
  by (intro reachable.typing reachable.mouseup reachable.mousemove reachable.mousedown
      reachable.upload reachable.init initial_page)

lemma reachable_flat: "reachable flat"
  unfolding flat_def
  by (intro reachable.typing reachable.upload reachable.init initial_page)

section \<open>The example session, generated\<close>

lemma draw_frame [simp]:
  "imgCanvas (startDraw raster rect e s) = imgCanvas s"
  "imgCanvas (draw raster rect e s) = imgCanvas s"
  "imgCanvas (stopDraw s) = imgCanvas s"
  "imageLoaded (startDraw raster rect e s) = imageLoaded s"
  "imageLoaded (draw raster rect e s) = imageLoaded s"
  "imageLoaded (stopDraw s) = imageLoaded s"
  "hasResult (startDraw raster rect e s) = hasResult s"
  "hasResult (draw raster rect e s) = hasResult s"
  "hasResult (stopDraw s) = hasResult s"
  "can_allocate (startDraw raster rect e s) = can_allocate s"
  "can_allocate (draw raster rect e s) = can_allocate s"
  "can_allocate (stopDraw s) = can_allocate s"
  by (simp_all add: startDraw_def draw_def stopDraw_def paint_def Let_def)

lemma can_allocate_upload [simp]: "can_allocate (handleImageUpload r img s) = can_allocate s"
  by (simp add: handleImageUpload_def resizeCanvases_def clearMask_def Let_def split_def)

lemma loaded_size: "cwidth (imgCanvas loaded) = 2" "cheight (imgCanvas loaded) = 1"
  by (simp_all add: loaded_def handleImageUpload_simps final_size_photo dims)

lemma prompted_facts:
  "session_inv prompted" "imageLoaded prompted" "prompt prompted \<noteq> []"
  "cdata (imgCanvas prompted) = [250, 240, 230, 255, 10, 20, 30, 255]"
  "cdata (maskCanvas prompted) = [255, 50, 50, 255, 0, 0, 0, 0]"
  "cwidth (imgCanvas prompted) = 2" "cheight (imgCanvas prompted) = 1"
  "can_allocate prompted n" "\<not> hasResult prompted"
proof -
  show "session_inv prompted"
    using reachable_prompted by (rule reachable_inv)
  show "imageLoaded prompted" "prompt prompted \<noteq> []" "\<not> hasResult prompted"
    by (simp_all add: prompted_def masked_def pressed_def loaded_flags)
  show "cdata (imgCanvas prompted) = [250, 240, 230, 255, 10, 20, 30, 255]"
    by (simp add: prompted_def masked_def pressed_def loaded_img)
  show "cdata (maskCanvas prompted) = [255, 50, 50, 255, 0, 0, 0, 0]"
    by (simp add: prompted_def masked_mask)
  show "cwidth (imgCanvas prompted) = 2" "cheight (imgCanvas prompted) = 1"
    by (simp_all add: prompted_def masked_def pressed_def loaded_size)
  show "can_allocate prompted n"
    by (simp add: prompted_def masked_def pressed_def loaded_def page_def)
qed

lemma run_prompted: "runGeneration prompted = (None, generated)"
proof -
  let ?t = "prompted\<lparr>loader_display := DisplayFlex\<rparr>"
  have "session_inv ?t"
    by (simp add: inv_flags prompted_facts)
  then have "fst (runGeneration_finish ?t) = None"
    by (subst finish_success) (simp_all add: prompted_facts)
  then have "fst (runGeneration prompted) = None"
    by (simp add: runGeneration_validated prompted_facts)
  then show ?thesis
    by (simp add: generated_def prod_eq_iff)
qed

lemma prompted_pixels:
  "0 < cwidth (imgCanvas prompted) * cheight (imgCanvas prompted)"
  "Suc 0 < cwidth (imgCanvas prompted) * cheight (imgCanvas prompted)"
  "pixel_at (cdata (imgCanvas prompted)) 0 = (250, 240, 230, 255)"
  "pixel_at (cdata (imgCanvas prompted)) (Suc 0) = (10, 20, 30, 255)"
  "alpha_at (cdata (imgCanvas prompted)) 0 = 255"
  "alpha_at (cdata (imgCanvas prompted)) (Suc 0) = 255"
  "alpha_at (cdata (maskCanvas prompted)) 0 = 255"
  "alpha_at (cdata (maskCanvas prompted)) (Suc 0) = 0"
  by (simp_all add: prompted_facts pixel_at_def alpha_at_def byte_at_def)

theorem generation_result_witness:
  "session_inv prompted \<and> runGeneration prompted = (None, generated)
   \<and> pixel_at (cdata (imgCanvas prompted)) 0 = (250, 240, 230, 255)
   \<and> alpha_at (cdata (imgCanvas prompted)) 0 = 255
   \<and> alpha_at (cdata (maskCanvas prompted)) 0 = 255
   \<and> pixel_at (cdata (resultCanvas generated)) 0 = (45, 5, 200, 255)
   \<and> pixel_at (cdata (imgCanvas prompted)) 1 = (10, 20, 30, 255)
   \<and> alpha_at (cdata (imgCanvas prompted)) 1 = 255
   \<and> alpha_at (cdata (maskCanvas prompted)) 1 = 0
   \<and> pixel_at (cdata (resultCanvas generated)) 1 = (10, 20, 30, 255)"
proof -
  have r0: "pixel_at (cdata (resultCanvas generated)) 0 = (45, 5, 200, 255)"
    using generation_result [OF prompted_facts(1) run_prompted prompted_pixels(1)]
    by (simp add: prompted_pixels through_alpha_opaque)
  have r1: "pixel_at (cdata (resultCanvas generated)) (Suc 0) = (10, 20, 30, 255)"
    using generation_result [OF prompted_facts(1) run_prompted prompted_pixels(2)]
    by (simp add: prompted_pixels)
  from r0 r1 prompted_pixels prompted_facts(1) run_prompted show ?thesis
    by simp
qed

theorem generation_frame_witness:
  "imageLoaded prompted \<and> prompt prompted \<noteq> [] \<and> runGeneration prompted = (None, generated)
   \<and> imgCanvas generated = imgCanvas prompted \<and> maskCanvas generated = maskCanvas prompted
   \<and> cdata (imgCanvas generated) = [250, 240, 230, 255, 10, 20, 30, 255]
   \<and> cdata (maskCanvas generated) = [255, 50, 50, 255, 0, 0, 0, 0]
   \<and> hasResult generated \<and> \<not> hasResult prompted"
  using generation_frame [OF prompted_facts(2,3) run_prompted]
  by (simp add: prompted_facts run_prompted)

section \<open>A translucent picture\<close>

text \<open>The session \<open>tinted\<close> is reached by uploading a picture whose only pixel is
  \<open>(102, 51, 0, 10)\<close>, painting over it and typing a prompt.  Its generation succeeds, and
  the pixel of the Result Buffer is \<open>(153, 77, 204, 10)\<close>: the transformed pixel
  \<open>((R + 50) mod 255, (G + 20) mod 255, 200, A) = (152, 71, 200, 10)\<close> is not what the
  Result Buffer holds when the pixel is not opaque.\<close>

lemma final_size_glass: "final_size (iwidth glass) (iheight glass) = (1, 1)"
  by (simp add: final_size_small glass_def)

lemma dims_one: "to_dimension 1 300 = 1" "to_dimension 1 150 = 1"
  by (simp_all add: to_dimension_def)

lemma replicate_4: "replicate 4 x = [x, x, x, x]"
  by (simp add: numeral_eq_Suc)

lemma framed_img: "cdata (imgCanvas framed) = [102, 51, 0, 10]"
proof -
  have "cdata (imgCanvas framed) =
    paint_pixels SourceOver (pixel_at [102, 51, 0, 10]) (replicate 4 0)"
    by (simp add: framed_def handleImageUpload_simps final_size_glass dims_one drawImage_image_def
        default_ctx_def copy_pixels_def) (simp add: glass_def)
  then show ?thesis
    by (simp add: replicate_4 pixel_eval)
qed

lemma framed_flags:
  "imageLoaded framed" "tool framed = Brush" "brushSize framed = 30" "\<not> hasResult framed"
  "cwidth (imgCanvas framed) = 1" "cheight (imgCanvas framed) = 1" "can_allocate framed n"
  by (simp_all add: framed_def handleImageUpload_simps page_def final_size_glass dims_one)

lemma framed_maskCanvas:
  "maskCanvas framed = \<lparr>cwidth = 1, cheight = 1, cdata = [0, 0, 0, 0], cctx = default_ctx\<rparr>"
proof (rule canvas.equality)
  have "cdata (maskCanvas framed) = replicate 4 0"
    by (simp add: framed_def handleImageUpload_simps final_size_glass dims_one clearRect_blank [where n = 4])
  then show "cdata (maskCanvas framed) =
      cdata \<lparr>cwidth = 1, cheight = 1, cdata = [0, 0, 0, 0], cctx = default_ctx\<rparr>"
    by (simp add: replicate_4)
qed (simp_all add: framed_def handleImageUpload_simps final_size_glass dims_one)

lemma pane_simps: "rleft pane = 0" "rtop pane = 0" "rwidth pane = 1" "rheight pane = 1"
  by (simp_all add: pane_def)

lemma tinted_mask: "cdata (maskCanvas tinted) = [255, 50, 50, 255]"
proof -
  have a: "maskCanvas (startDraw dab pane click framed) =
     \<lparr>cwidth = 1, cheight = 1, cdata = [0, 0, 0, 0],
      cctx = \<lparr>lineWidth = 30, lineCap = RoundCap, lineJoin = RoundJoin,
               globalCompositeOperation = SourceOver, strokeStyle = (255, 50, 50, 255),
               path = [[(1 / 2, 1 / 2)]]\<rparr>\<rparr>"
    by (simp add: startDraw_def framed_flags paint_def stroke_def framed_maskCanvas
        default_ctx_def pane_simps click_def dab_def path_eval pixel_eval)
  have f: "tool (startDraw dab pane click framed) = Brush" "isDrawing (startDraw dab pane click framed)"
    "brushSize (startDraw dab pane click framed) = 30"
    by (simp_all add: startDraw_def framed_flags paint_def Let_def)
  have "cdata (maskCanvas (paint dab pane move (startDraw dab pane click framed))) = [255, 50, 50, 255]"
    by (simp add: f paint_def stroke_def a pane_simps move_def dab_def path_eval pixel_eval)
  then show ?thesis
    by (simp add: tinted_def stopDraw_def draw_def f)
qed

lemma tinted_facts:
  "session_inv tinted" "imageLoaded tinted" "prompt tinted \<noteq> []"
  "cdata (imgCanvas tinted) = [102, 51, 0, 10]"
  "cwidth (imgCanvas tinted) = 1" "cheight (imgCanvas tinted) = 1"
  "can_allocate tinted n"
proof -
  show "session_inv tinted"
    using reachable_tinted by (rule reachable_inv)
qed (simp_all add: tinted_def framed_flags framed_img)

lemma run_tinted: "runGeneration tinted = (None, snd (runGeneration tinted))"
proof -
  let ?t = "tinted\<lparr>loader_display := DisplayFlex\<rparr>"
  have "session_inv ?t"
    by (simp add: inv_flags tinted_facts)
  then have "fst (runGeneration_finish ?t) = None"
    by (subst finish_success) (simp_all add: tinted_facts)
  then have "fst (runGeneration tinted) = None"
    by (simp add: runGeneration_validated tinted_facts)
  then show ?thesis
    by (simp add: prod_eq_iff)
qed

theorem generation_result_counterexample:
  "reachable tinted
   \<and> fst (runGeneration tinted) = None
   \<and> pixel_at (cdata (imgCanvas tinted)) 0 = (102, 51, 0, 10)
   \<and> alpha_at (cdata (maskCanvas tinted)) 0 = 255
   \<and> pixel_at (cdata (resultCanvas (snd (runGeneration tinted)))) 0 = (153, 77, 204, 10)
   \<and> (of_nat ((unat (102 :: u8) + 50) mod 255), of_nat ((unat (51 :: u8) + 20) mod 255), 200, 10)
       = ((152, 71, 200, 10) :: pixel)
   \<and> pixel_at (cdata (resultCanvas (snd (runGeneration tinted)))) 0 \<noteq> (152, 71, 200, 10)"
proof -
  have i: "pixel_at (cdata (imgCanvas tinted)) 0 = (102, 51, 0, 10)"
    by (simp add: tinted_facts pixel_at_def byte_at_def)
  have m: "alpha_at (cdata (maskCanvas tinted)) 0 = 255"
    by (simp add: tinted_mask alpha_at_def byte_at_def)
  have p: "0 < cwidth (imgCanvas tinted) * cheight (imgCanvas tinted)"
    by (simp add: tinted_facts)
  have r: "pixel_at (cdata (resultCanvas (snd (runGeneration tinted)))) 0 = (153, 77, 204, 10)"
    using success_pixel [OF tinted_facts(1) run_tinted p]
    by (simp add: i m through_alpha_def unpremultiply_def mul255_def)
  from run_tinted have "fst (runGeneration tinted) = None"
    by (simp add: prod_eq_iff)
  with reachable_tinted i m r show ?thesis
    by simp
qed

section \<open>A generation that fails\<close>

lemma binary64_pos:
  assumes "0 < x" and "exponent x = e" and "round_half_even (x / pow2 (e - 52)) = m"
  shows "binary64 x = of_int m * pow2 (e - 52)"
  using assms by (simp add: binary64_def)

lemma round_half_even_int [simp]: "round_half_even (of_int k) = k"
  by (simp add: round_half_even_def)












section \<open>Double-precision rounding\<close>

lemma bitlen_lower: "0 < n \<Longrightarrow> 2 ^ (bitlen n - 1) \<le> n"
proof (induction n rule: bitlen.induct)
  case (1 n)
  show ?case
  proof (cases "n div 2 = 0")
    case True
    with 1(2) show ?thesis
      by simp
  next
    case False
    with 1 have "2 ^ (bitlen (n div 2) - 1) \<le> n div 2"
      by simp
    moreover from False have "bitlen (n div 2) = Suc (bitlen (n div 2) - 1)"
      by simp
    ultimately have "2 ^ bitlen (n div 2) \<le> 2 * (n div 2)"
      by (metis mult_le_mono2 power_Suc)
    also have "\<dots> \<le> n"
      by simp
    finally show ?thesis
      using 1(2) by simp
  qed
qed

lemma exponent_le:
  assumes "0 < x" and "x < 2 ^ 53"
  shows "exponent x \<le> 52"
proof (cases "1 \<le> x")
  case True
  define n where "n = nat \<lfloor>x\<rfloor>"
  from True have n: "0 < n"
    by (simp add: n_def)
  have "of_nat n \<le> x"
    using True by (simp add: n_def)
  with assms(2) have "(of_nat n :: rat) < 2 ^ 53"
    by simp
  then have "n < 2 ^ 53"
    by (metis of_nat_less_iff of_nat_numeral of_nat_power)
  with bitlen_lower [OF n] have "(2::nat) ^ (bitlen n - 1) < 2 ^ 53"
    by simp
  then have "bitlen n - 1 < 53"
    by (simp only: power_strict_increasing_iff) 
  with True show ?thesis
    by (simp add: exponent_def n_def)
next
  case False
  then show ?thesis
    by (simp add: exponent_def Let_def)
qed

lemma round_half_even_le:
  assumes "x \<le> of_int m"
  shows "round_half_even x \<le> m"
proof -
  have f: "\<lfloor>x\<rfloor> \<le> m"
    using assms by (simp add: floor_le_iff)
  show ?thesis
  proof (cases "\<lfloor>x\<rfloor> = m")
    case True
    with assms have "x - of_int \<lfloor>x\<rfloor> \<le> 0"
      by simp
    then have "x - of_int \<lfloor>x\<rfloor> < 1 / 2"
      by simp
    with True show ?thesis
      by (simp add: round_half_even_def Let_def)
  next
    case False
    with f have "\<lfloor>x\<rfloor> + 1 \<le> m"
      by simp
    then show ?thesis
      by (simp add: round_half_even_def Let_def)
  qed
qed

lemma round_half_even_nonneg:
  assumes "0 \<le> x"
  shows "0 \<le> round_half_even x"
proof -
  from assms have "0 \<le> \<lfloor>x\<rfloor>"
    by simp
  then show ?thesis
    by (simp add: round_half_even_def Let_def)
qed

lemma pow2_pos: "0 < pow2 k"
  by (simp add: pow2_def)

lemma binary64_nonneg: "0 \<le> x \<Longrightarrow> 0 \<le> binary64 x"
  by (simp add: binary64_def Let_def round_half_even_nonneg less_imp_le [OF pow2_pos])

lemma binary64_le:
  assumes "0 \<le> x" and "x \<le> of_int n" and "n < 2 ^ 53"
  shows "binary64 x \<le> of_int n"
proof (cases "x = 0")
  case True
  with assms(2) show ?thesis
    by (simp add: binary64_def)
next
  case False
  with assms(1) have pos: "0 < x"
    by simp
  from assms(2,3) have "x < 2 ^ 53"
    by (metis le_less_trans of_int_less_iff of_int_numeral of_int_power)
  with pos have e: "exponent x \<le> 52"
    by (rule exponent_le)
  define k where "k = nat (52 - exponent x)"
  have u: "pow2 (exponent x - 52) = 1 / 2 ^ k"
    using e by (simp add: pow2_def k_def) 
  have "x * 2 ^ k \<le> of_int n * 2 ^ k"
    using assms(2) by simp
  then have "x * 2 ^ k \<le> of_int (n * 2 ^ k)"
    by simp
  then have "round_half_even (x * 2 ^ k) \<le> n * 2 ^ k"
    by (rule round_half_even_le)
  then have "(of_int (round_half_even (x * 2 ^ k)) :: rat) \<le> of_int (n * 2 ^ k)"
    by (simp only: of_int_le_iff)
  then have "(of_int (round_half_even (x * 2 ^ k)) :: rat) / 2 ^ k \<le> of_int n"
    by (simp add: divide_le_eq)
  with pos show ?thesis
    by (simp add: binary64_def u)
qed

section \<open>The stored size of an uploaded image\<close>

lemma to_dimension_small:
  assumes "0 \<le> v" and "v < 2 ^ 31"
  shows "to_dimension v d = nat \<lfloor>v\<rfloor>"
proof -
  from assms(1) have "0 \<le> \<lfloor>v\<rfloor>"
    by simp
  moreover from assms(2) have "\<lfloor>v\<rfloor> < 2 ^ 31"
    by (simp add: floor_less_iff)
  ultimately show ?thesis
    using assms(1) by (simp add: to_dimension_def)
qed

lemma to_dimension_of_nat: "n < 2 ^ 31 \<Longrightarrow> to_dimension (of_nat n) d = n"
  by (subst to_dimension_small) simp_all

lemma scaled_height_bounds:
  assumes "2048 < w" and "h < 2 ^ 31"
  shows "0 \<le> fmul (of_nat h) (fdiv 2048 (of_nat w))"
    and "fmul (of_nat h) (fdiv 2048 (of_nat w)) \<le> of_nat h"
proof -
  let ?q = "2048 / of_nat w :: rat"
  from assms have q: "0 \<le> ?q" "?q \<le> of_int 1"
    by simp_all
  have r0: "0 \<le> binary64 ?q"
    using q(1) by (rule binary64_nonneg)
  have "binary64 ?q \<le> of_int 1"
    using q by (rule binary64_le) simp
  then have r1: "binary64 ?q \<le> 1"
    by simp
  have p0: "0 \<le> of_nat h * binary64 ?q"
    using r0 by simp
  have "of_nat h * binary64 ?q \<le> of_nat h * 1"
    using r1 by (intro mult_left_mono) simp_all
  then have p1: "of_nat h * binary64 ?q \<le> of_int (int h)"
    by simp
  show "0 \<le> fmul (of_nat h) (fdiv 2048 (of_nat w))"
    unfolding fmul_def fdiv_def using p0 by (rule binary64_nonneg)
  have "int h < 2 ^ 53"
    using assms(2) by simp
  with p0 p1 have "binary64 (of_nat h * binary64 ?q) \<le> of_int (int h)"
    by (rule binary64_le)
  then show "fmul (of_nat h) (fdiv 2048 (of_nat w)) \<le> of_nat h"
    by (simp add: fmul_def fdiv_def)
qed

lemma upload_image_size:
  "cwidth (imgCanvas (handleImageUpload r img s)) = to_dimension (fst (final_size (iwidth img) (iheight img))) 300"
  "cheight (imgCanvas (handleImageUpload r img s)) = to_dimension (snd (final_size (iwidth img) (iheight img))) 150"
  by (simp_all add: handleImageUpload_simps split_def)

lemma final_size_large:
  "2048 < w \<Longrightarrow> final_size w h = (2048, fmul (of_nat h) (fdiv 2048 (of_nat w)))"
  by (simp add: final_size_def)

section \<open>The rounding error of the scaled height\<close>

lemma bitlen_upper: "n < 2 ^ bitlen n"
proof (induction n rule: bitlen.induct)
  case (1 n)
  show ?case
  proof (cases "n = 0")
    case True
    then show ?thesis
      by simp
  next
    case False
    with 1 have "n div 2 < 2 ^ bitlen (n div 2)"
      by simp
    then have "n < 2 * 2 ^ bitlen (n div 2)"
      by linarith
    with False show ?thesis
      by simp
  qed
qed

lemma bitlen_pos: "0 < n \<Longrightarrow> 0 < bitlen n"
  by simp

lemma exponent_lower:
  assumes "0 < x"
  shows "pow2 (exponent x) \<le> x"
proof (cases "1 \<le> x")
  case True
  define n where "n = nat \<lfloor>x\<rfloor>"
  from True have n: "0 < n"
    by (simp add: n_def)
  have nx: "of_nat n \<le> x"
    using True by (simp add: n_def)
  from n have b: "0 < bitlen n"
    by (rule bitlen_pos)
  then have "exponent x = int (bitlen n - 1)"
    using True by (simp add: exponent_def n_def)
  then have "pow2 (exponent x) = 2 ^ (bitlen n - 1)"
    by (simp add: pow2_def)
  also have "\<dots> = of_nat (2 ^ (bitlen n - 1))"
    by simp
  also have "\<dots> \<le> of_nat n"
    using bitlen_lower [OF n] by (simp only: of_nat_le_iff)
  finally show ?thesis
    using nx by simp
next
  case False
  define n where "n = nat \<lfloor>1 / x\<rfloor>"
  from False assms have "1 \<le> 1 / x"
    by simp
  then have n: "0 < n"
    by (simp add: n_def)
  have ex: "exponent x =
      (if x = pow2 (1 - int (bitlen n)) then 1 - int (bitlen n) else - int (bitlen n))"
    using False by (simp add: exponent_def n_def Let_def)
  show ?thesis
  proof (cases "x = pow2 (1 - int (bitlen n))")
    case True
    have "exponent x = 1 - int (bitlen n)"
      by (rule trans [OF ex if_P [OF True]])
    then have "pow2 (exponent x) = pow2 (1 - int (bitlen n))"
      by (rule arg_cong)
    also have "\<dots> = x"
      by (rule True [symmetric])
    finally show ?thesis
      by (rule eq_refl)
  next
    case ne: False
    have e: "exponent x = - int (bitlen n)"
      by (rule trans [OF ex if_not_P [OF ne]])
    from n have "0 < bitlen n"
      by (rule bitlen_pos)
    then have p: "pow2 (exponent x) = 1 / 2 ^ bitlen n"
      by (simp add: e pow2_def)
    have "1 / x < of_int \<lfloor>1 / x\<rfloor> + 1"
      by linarith
    also have "of_int \<lfloor>1 / x\<rfloor> + 1 = (of_nat (n + 1) :: rat)"
    proof -
      from \<open>1 \<le> 1 / x\<close> have "0 \<le> 1 / x"
        by (rule order_trans [rotated]) simp
      then have "0 \<le> \<lfloor>1 / x\<rfloor>"
        by (simp only: zero_le_floor)
      then show ?thesis
        by (simp add: n_def)
    qed
    also have "\<dots> \<le> of_nat (2 ^ bitlen n)"
      using bitlen_upper [of n] by (simp only: of_nat_le_iff)
    finally have "1 / x \<le> 2 ^ bitlen n"
      by simp
    with assms have "1 \<le> 2 ^ bitlen n * x"
      by (simp add: divide_le_eq)
    then have "1 / 2 ^ bitlen n \<le> x"
      by (simp add: divide_le_eq mult.commute)
    with p show ?thesis
      by simp
  qed
qed

lemma round_half_even_error: "\<bar>of_int (round_half_even x) - x\<bar> \<le> 1 / 2"
proof -
  have "0 \<le> x - of_int \<lfloor>x\<rfloor>" and "x - of_int \<lfloor>x\<rfloor> < 1"
    by linarith+
  then show ?thesis
    by (simp add: round_half_even_def Let_def abs_le_iff)
qed

lemma pow2_shift: "pow2 (k - 52) = pow2 k / 2 ^ 52"
proof -
  have p: "pow2 j = 2 powi j" for j
    by (simp add: pow2_def power_int_def inverse_eq_divide power_one_over)
  have "(2::rat) powi (k - 52) = 2 powi k / 2 powi 52"
    by (rule power_int_diff) simp
  then show ?thesis
    by (simp add: p)
qed

lemma binary64_error:
  assumes "0 \<le> x"
  shows "\<bar>binary64 x - x\<bar> \<le> x / 2 ^ 53"
proof (cases "x = 0")
  case True
  then show ?thesis
    by (simp add: binary64_def)
next
  case False
  with assms have pos: "0 < x"
    by simp
  define u where "u = pow2 (exponent x - 52)"
  have u: "0 < u"
    by (simp add: u_def pow2_pos)
  have "u = pow2 (exponent x) / 2 ^ 52"
    by (simp add: u_def pow2_shift)
  also have "\<dots> \<le> x / 2 ^ 52"
    using exponent_lower [OF pos] by (simp add: divide_right_mono)
  finally have ux: "u \<le> x / 2 ^ 52" .
  have b: "binary64 x = of_int (round_half_even (x / u)) * u"
    using pos by (simp add: binary64_def u_def Let_def)
  have "binary64 x - x = (of_int (round_half_even (x / u)) - x / u) * u"
    using u by (simp add: b algebra_simps)
  then have "\<bar>binary64 x - x\<bar> = \<bar>of_int (round_half_even (x / u)) - x / u\<bar> * u"
    using u by (simp add: abs_mult)
  also have "\<dots> \<le> 1 / 2 * u"
    using u round_half_even_error [of "x / u"] by (intro mult_right_mono) simp_all
  also have "\<dots> \<le> 1 / 2 * (x / 2 ^ 52)"
    using ux by simp
  also have "\<dots> = x / 2 ^ 53"
    by simp
  finally show ?thesis .
qed

lemma two_roundings:
  fixes E P v e :: rat
  assumes "0 \<le> E" and "\<bar>P - E\<bar> \<le> E * e" and "\<bar>v - P\<bar> \<le> P * e" and "0 \<le> e" and "e \<le> 1"
  shows "\<bar>v - E\<bar> \<le> 3 * E * e"
proof -
  have Ee: "0 \<le> E * e"
    using assms(1,4) by simp
  from assms(2) have "P \<le> E + E * e"
    by linarith
  then have "P * e \<le> (E + E * e) * e"
    using assms(4) by (rule mult_right_mono)
  also have "\<dots> = E * e + (E * e) * e"
    by (simp add: algebra_simps)
  also have "(E * e) * e \<le> E * e"
    using Ee assms(4,5) by (rule mult_right_le_one_le)
  finally have "P * e \<le> 2 * (E * e)"
    by simp
  with assms(2,3) have "\<bar>v - E\<bar> \<le> 3 * (E * e)"
    by linarith
  then show ?thesis
    by (simp add: mult.assoc)
qed

lemma scaled_height_close:
  fixes w h :: nat
  defines "E \<equiv> of_nat h * 2048 / of_nat w :: rat"
  defines "v \<equiv> fmul (of_nat h) (fdiv 2048 (of_nat w))"
  assumes w: "2048 < w" and h: "h < 2 ^ 31"
  shows "of_int \<lfloor>E\<rfloor> - 1 \<le> v" and "v < of_int \<lfloor>E\<rfloor> + 1"
proof -
  define q :: rat where "q = 2048 / of_nat w"
  define r where "r = binary64 q"
  define P where "P = of_nat h * r"
  define e :: rat where "e = 1 / 2 ^ 53"
  have wpos: "(0::rat) < of_nat w"
    using w by simp
  have q0: "0 \<le> q"
    by (simp add: q_def)
  have E: "E = of_nat h * q"
    by (simp add: E_def q_def)
  have E0: "0 \<le> E"
    by (simp add: E q0)
  have "\<bar>r - q\<bar> \<le> q * e"
    using binary64_error [OF q0] by (simp add: r_def e_def)
  then have "of_nat h * \<bar>r - q\<bar> \<le> of_nat h * (q * e)"
    by (intro mult_left_mono) simp_all
  moreover have "\<bar>P - E\<bar> = of_nat h * \<bar>r - q\<bar>"
    by (simp add: P_def E right_diff_distrib [symmetric] abs_mult)
  ultimately have PE: "\<bar>P - E\<bar> \<le> E * e"
    by (simp add: E mult.assoc)
  have "0 \<le> r"
    unfolding r_def using q0 by (rule binary64_nonneg)
  then have P0: "0 \<le> P"
    by (simp add: P_def)
  have v: "v = binary64 P"
    by (simp add: v_def fmul_def fdiv_def P_def r_def q_def)
  have vP: "\<bar>v - P\<bar> \<le> P * e"
    using binary64_error [OF P0] by (simp add: v e_def)
  have "\<bar>v - E\<bar> \<le> 3 * E * e"
    using E0 PE vP by (rule two_roundings) (simp_all add: e_def)
  then have close: "E - 3 * E * e \<le> v" "v \<le> E + 3 * E * e"
    by linarith+
  have Ew: "E * of_nat w = of_nat (2048 * h)"
    using wpos by (simp add: E_def)
  have "3 * (2048 * h) < 3 * (2048 * 2 ^ 31)"
    using h by simp
  also have "\<dots> < (2::nat) ^ 53"
    by simp
  finally have "(of_nat (3 * (2048 * h)) :: rat) < of_nat (2 ^ 53)"
    by (simp only: of_nat_less_iff)
  then have "3 * (E * of_nat w) < 2 ^ 53"
    by (simp add: Ew)
  then have "3 * E * e * of_nat w < 1"
    by (simp add: e_def)
  then have small: "3 * E * e < 1 / of_nat w"
    using wpos by (simp add: less_divide_eq)
  have "1 / of_nat w \<le> (1::rat)"
    using w by simp
  with small have "3 * E * e < 1"
    by linarith
  moreover have "of_int \<lfloor>E\<rfloor> \<le> E"
    by simp
  ultimately show "of_int \<lfloor>E\<rfloor> - 1 \<le> v"
    using close(1) by linarith
  have "E < of_int (\<lfloor>E\<rfloor> + 1)"
    by linarith
  then have "E * of_nat w < of_int (\<lfloor>E\<rfloor> + 1) * of_nat w"
    using wpos by (simp only: mult_less_cancel_right_pos)
  then have "(of_int (int (2048 * h)) :: rat) < of_int ((\<lfloor>E\<rfloor> + 1) * int w)"
    by (simp add: Ew)
  then have "int (2048 * h) < (\<lfloor>E\<rfloor> + 1) * int w"
    by (simp only: of_int_less_iff)
  then have "int (2048 * h) + 1 \<le> (\<lfloor>E\<rfloor> + 1) * int w"
    by simp
  then have "(of_int (int (2048 * h) + 1) :: rat) \<le> of_int ((\<lfloor>E\<rfloor> + 1) * int w)"
    by (simp only: of_int_le_iff)
  then have "E * of_nat w + 1 \<le> (of_int \<lfloor>E\<rfloor> + 1) * of_nat w"
    by (simp add: Ew)
  then have "(E * of_nat w + 1) / of_nat w \<le> of_int \<lfloor>E\<rfloor> + 1"
    using wpos by (simp add: divide_le_eq)
  then have "E + 1 / of_nat w \<le> of_int \<lfloor>E\<rfloor> + 1"
    using wpos by (simp add: add_divide_distrib)
  with small close(2) show "v < of_int \<lfloor>E\<rfloor> + 1"
    by linarith
qed

text \<open>C6, as the code has it: for every uploaded image (of height below \<open>2^31\<close>), if
  its width is greater than 2048 the stored Image Buffer has width exactly 2048 and its
  height is the integer part of the double-precision product
  \<open>original_height * (2048 / original_width)\<close>: the fraction is dropped, not rounded to
  the nearest integer, so the height is \<open>\<lfloor>original_height * 2048 / original_width\<rfloor>\<close>
  or, through the rounding of the two floating-point operations, one less.  Otherwise the
  image keeps its original width and height.\<close>

theorem upload_size:
  assumes "iheight img < 2 ^ 31"
  shows "if 2048 < iwidth img
    then cwidth (imgCanvas (handleImageUpload resample img s)) = 2048
      \<and> cheight (imgCanvas (handleImageUpload resample img s)) =
          nat \<lfloor>fmul (of_nat (iheight img)) (fdiv 2048 (of_nat (iwidth img)))\<rfloor>
      \<and> \<lfloor>of_nat (iheight img) * 2048 / of_nat (iwidth img) :: rat\<rfloor> - 1
          \<le> int (cheight (imgCanvas (handleImageUpload resample img s)))
      \<and> int (cheight (imgCanvas (handleImageUpload resample img s)))
          \<le> \<lfloor>of_nat (iheight img) * 2048 / of_nat (iwidth img) :: rat\<rfloor>
    else cwidth (imgCanvas (handleImageUpload resample img s)) = iwidth img
      \<and> cheight (imgCanvas (handleImageUpload resample img s)) = iheight img"
proof (cases "2048 < iwidth img")
  case True
  let ?v = "fmul (of_nat (iheight img)) (fdiv 2048 (of_nat (iwidth img)))"
  let ?E = "of_nat (iheight img) * 2048 / of_nat (iwidth img) :: rat"
  note b = scaled_height_bounds [OF True assms]
  note c = scaled_height_close [OF True assms]
  from b(2) assms have "?v < 2 ^ 31"
    by (metis le_less_trans of_nat_less_iff of_nat_numeral of_nat_power)
  with b(1) have h: "to_dimension ?v 150 = nat \<lfloor>?v\<rfloor>"
    by (rule to_dimension_small)
  from b(1) have n: "int (nat \<lfloor>?v\<rfloor>) = \<lfloor>?v\<rfloor>"
    by simp
  from c(1) have "of_int (\<lfloor>?E\<rfloor> - 1) \<le> ?v"
    by simp
  then have lo: "\<lfloor>?E\<rfloor> - 1 \<le> \<lfloor>?v\<rfloor>"
    by (simp only: le_floor_iff)
  from c(2) have "?v < of_int (\<lfloor>?E\<rfloor> + 1)"
    by simp
  then have "\<lfloor>?v\<rfloor> < \<lfloor>?E\<rfloor> + 1"
    by (simp only: floor_less_iff)
  then have hi: "\<lfloor>?v\<rfloor> \<le> \<lfloor>?E\<rfloor>"
    by simp
  have "to_dimension 2048 300 = 2048"
    by (simp add: to_dimension_def)
  then have wd: "cwidth (imgCanvas (handleImageUpload resample img s)) = 2048"
    using True by (simp add: upload_image_size final_size_large)
  have ht: "cheight (imgCanvas (handleImageUpload resample img s)) = nat \<lfloor>?v\<rfloor>"
    using True by (simp add: upload_image_size final_size_large h)
  have ih: "int (cheight (imgCanvas (handleImageUpload resample img s))) = \<lfloor>?v\<rfloor>"
    by (simp only: ht n)
  have "cwidth (imgCanvas (handleImageUpload resample img s)) = 2048
      \<and> cheight (imgCanvas (handleImageUpload resample img s)) = nat \<lfloor>?v\<rfloor>
      \<and> \<lfloor>?E\<rfloor> - 1 \<le> int (cheight (imgCanvas (handleImageUpload resample img s)))
      \<and> int (cheight (imgCanvas (handleImageUpload resample img s))) \<le> \<lfloor>?E\<rfloor>"
    using wd ht lo hi by (simp only: n simp_thms)
  then show ?thesis
    unfolding if_P [OF True] .
next
  case False
  then have "iwidth img < 2 ^ 31"
    by simp
  with False assms show ?thesis
    by (simp add: upload_image_size final_size_small to_dimension_of_nat)
qed

lemma exponent_quarter: "exponent (1 / 4) = - 2"
  by (simp add: exponent_def pow2_def)

lemma binary64_quarter: "binary64 (1 / 4) = 1 / 4"
proof -
  have "round_half_even ((1 / 4) / pow2 (- 2 - 52)) = 4503599627370496"
    using round_half_even_int [of 4503599627370496] by (simp add: pow2_def)
  from binary64_pos [OF _ exponent_quarter this] show ?thesis
    by (simp add: pow2_def)
qed

lemma exponent_7_4: "exponent (7 / 4) = 0"
  by (simp add: exponent_def pow2_def)

lemma binary64_7_4: "binary64 (7 / 4) = 7 / 4"
proof -
  have "round_half_even ((7 / 4) / pow2 (0 - 52)) = 7881299347898368"
    using round_half_even_int [of 7881299347898368] by (simp add: pow2_def)
  from binary64_pos [OF _ exponent_7_4 this] show ?thesis
    by (simp add: pow2_def)
qed

lemma scaled_8192_7: "fmul 7 (fdiv 2048 8192) = 7 / 4"
  by (simp add: fdiv_def fmul_def binary64_quarter binary64_7_4)

lemma scaled_wide: "fmul (of_nat (iheight wide)) (fdiv 2048 (of_nat (iwidth wide))) = 7 / 4"
  by (simp add: wide_def scaled_8192_7)

lemma exponent_32_49: "exponent (32 / 49) = - 1"
  by (simp add: exponent_def pow2_def)

lemma binary64_32_49: "binary64 (32 / 49) = 5882252574524729 / 9007199254740992"
proof -
  have "round_half_even ((32 / 49) / pow2 (- 1 - 52)) = 5882252574524729"
    by (simp add: pow2_def round_half_even_def)
  from binary64_pos [OF _ exponent_32_49 this] show ?thesis
    by (simp add: pow2_def)
qed

lemma exponent_almost_32: "exponent (288230376151711721 / 9007199254740992) = 4"
  by (simp add: exponent_def)

lemma binary64_almost_32:
  "binary64 (288230376151711721 / 9007199254740992) = 9007199254740991 / 281474976710656"
proof -
  have "round_half_even ((288230376151711721 / 9007199254740992) / pow2 (4 - 52)) = 9007199254740991"
    by (simp add: pow2_def round_half_even_def)
  from binary64_pos [OF _ exponent_almost_32 this] show ?thesis
    by (simp add: pow2_def)
qed

lemma scaled_3136_49: "fmul 49 (fdiv 2048 3136) = 9007199254740991 / 281474976710656"
  by (simp add: fdiv_def fmul_def binary64_32_49 binary64_almost_32)

lemma scaled_banner:
  "fmul (of_nat (iheight banner)) (fdiv 2048 (of_nat (iwidth banner))) = 9007199254740991 / 281474976710656"
  by (simp add: banner_def scaled_3136_49)

theorem upload_size_witness:
  "iheight wide < 2 ^ 31 \<and> 2048 < iwidth wide
   \<and> cwidth (imgCanvas (handleImageUpload copy_pixels wide page)) = 2048
   \<and> cheight (imgCanvas (handleImageUpload copy_pixels wide page)) = 1
   \<and> \<lfloor>of_nat (iheight wide) * 2048 / of_nat (iwidth wide) :: rat\<rfloor> = 1
   \<and> iheight banner < 2 ^ 31 \<and> 2048 < iwidth banner
   \<and> cwidth (imgCanvas (handleImageUpload copy_pixels banner page)) = 2048
   \<and> cheight (imgCanvas (handleImageUpload copy_pixels banner page)) = 31
   \<and> \<lfloor>of_nat (iheight banner) * 2048 / of_nat (iwidth banner) :: rat\<rfloor> = 32
   \<and> iheight photo < 2 ^ 31 \<and> \<not> 2048 < iwidth photo
   \<and> cwidth (imgCanvas (handleImageUpload copy_pixels photo page)) = 2
   \<and> cheight (imgCanvas (handleImageUpload copy_pixels photo page)) = 1"
proof -
  have w: "iheight wide < 2 ^ 31" "2048 < iwidth wide"
    "\<lfloor>of_nat (iheight wide) * 2048 / of_nat (iwidth wide) :: rat\<rfloor> = 1"
    by (simp_all add: wide_def)
  have b: "iheight banner < 2 ^ 31" "2048 < iwidth banner"
    "\<lfloor>of_nat (iheight banner) * 2048 / of_nat (iwidth banner) :: rat\<rfloor> = 32"
    by (simp_all add: banner_def)
  have p: "iheight photo < 2 ^ 31" "\<not> 2048 < iwidth photo" "iwidth photo = 2" "iheight photo = 1"
    by (simp_all add: photo_def)
  have "cwidth (imgCanvas (handleImageUpload copy_pixels wide page)) = 2048
    \<and> cheight (imgCanvas (handleImageUpload copy_pixels wide page)) = 1"
    using upload_size [OF w(1), of copy_pixels page] w(2) by (simp add: scaled_wide)
  moreover have "cwidth (imgCanvas (handleImageUpload copy_pixels banner page)) = 2048
    \<and> cheight (imgCanvas (handleImageUpload copy_pixels banner page)) = 31"
    using upload_size [OF b(1), of copy_pixels page] b(2) by (simp add: scaled_banner)
  moreover have "cwidth (imgCanvas (handleImageUpload copy_pixels photo page)) = 2
    \<and> cheight (imgCanvas (handleImageUpload copy_pixels photo page)) = 1"
    using upload_size [OF p(1), of copy_pixels page] p by simp
  ultimately show ?thesis
    using w b p by simp
qed

theorem upload_size_counterexample:
  "2048 < iwidth wide
   \<and> cwidth (imgCanvas (handleImageUpload copy_pixels wide page)) = 2048
   \<and> cheight (imgCanvas (handleImageUpload copy_pixels wide page)) = 1
   \<and> round (of_nat (iheight wide) * 2048 / of_nat (iwidth wide) :: rat) = 2"
proof -
  have "round (of_nat (iheight wide) * 2048 / of_nat (iwidth wide) :: rat) = 2"
    by (simp add: wide_def round_def)
  moreover have "cheight (imgCanvas (handleImageUpload copy_pixels wide page)) = 1"
    by (simp add: upload_image_size final_size_large scaled_8192_7 to_dimension_def wide_def)
  moreover have "cwidth (imgCanvas (handleImageUpload copy_pixels wide page)) = 2048"
    by (simp add: upload_image_size final_size_large to_dimension_def wide_def)
  ultimately show ?thesis
    by (simp add: wide_def)
qed

section \<open>A click\<close>

lemma mix_destination_only:
  assumes "0 < w"
  shows "mix c 0 d w = d"
proof -
  have "w div 2 < w"
    using assms by simp
  then have "(unat d * w + w div 2) div w = unat d"
    using assms by simp
  then show ?thesis
    by (simp add: mix_def)
qed

lemma composite_nothing:
  assumes "alpha s = 0"
  shows "composite op s d = (if alpha d = 0 then transparent else d)"
proof -
  obtain sr sg sb sa where s: "s = (sr, sg, sb, sa)" by (cases s)
  obtain dr dg db da where d: "d = (dr, dg, db, da)" by (cases d)
  from assms have sa: "unat sa = 0"
    by (simp add: s alpha_def)
  show ?thesis
  proof (cases "unat da = 0")
    case True
    then show ?thesis
      by (cases op) (simp_all add: s d sa alpha_def mul255_def)
  next
    case False
    then have "0 < unat da * 255"
      by simp
    with False show ?thesis
      by (cases op) (simp_all add: s d sa alpha_def mul255_def mix_destination_only)
  qed
qed

lemma stored_composite_nothing:
  assumes "alpha s = 0"
  shows "stored (composite op s d) = stored d"
  using assms by (simp add: composite_nothing stored_clear)

lemma paint_pixels_nothing:
  assumes "storable xs" and "4 dvd length xs" and "\<And>p. alpha (src p) = 0"
  shows "paint_pixels op src xs = xs"
proof (rule nth_equalityI)
  show "length (paint_pixels op src xs) = length xs"
    by simp
next
  fix i
  assume "i < length (paint_pixels op src xs)"
  then have i: "i < length xs"
    by simp
  from i assms(2) have "4 * (i div 4) + 3 < length xs"
    by (rule whole_pixel)
  with assms(1) have "stored (pixel_at xs (i div 4)) = pixel_at xs (i div 4)"
    by (rule storableD)
  with i assms(2,3) show "paint_pixels op src xs ! i = xs ! i"
    by (simp add: paint_pixels_def stored_composite_nothing channel_pixel_at)
qed

lemma alpha_scale_alpha_0: "alpha (scale_alpha c 0) = 0"
  by (cases c) (simp add: alpha_def mul255_def)

lemma stroke_nothing:
  assumes "storable (cdata c)" and "wf_canvas c"
    and "\<And>p. raster (cctx c) (cwidth c) (cheight c) p = 0"
  shows "cdata (stroke raster c) = cdata c"
proof -
  from assms(2) have "4 dvd length (cdata c)"
    by (simp add: wf_canvas_def)
  with assms(1) show ?thesis
    unfolding stroke_def by (simp add: paint_pixels_nothing assms(3) alpha_scale_alpha_0)
qed

lemma lineless_lineTo:
  assumes "path cx = []"
  shows "lineless (lineTo x y cx)"
  using assms by (cases x; cases y) (simp_all add: lineTo_def lineless_def)

text \<open>C7, as the code has it: a click is a \<open>mousedown\<close> followed by a \<open>mouseup\<close>, that
  is \<open>startDraw\<close> and then \<open>stopDraw\<close>.  In a session the script can be in, with an image
  loaded and no stroke in progress, the current path of the mask canvas is empty, so the
  \<open>lineTo\<close> of \<open>paint\<close> only starts a subpath at the pointer and the path that is stroked
  has no line.  With a rasteriser that, as the standard asks, gives no coverage to a path
  without a line, the click leaves every byte of the Mask Buffer as it was, whatever the
  tool, the brush size, the layout and the point: no dot is painted.\<close>

theorem click_paints_nothing:
  assumes "session_inv s" and "imageLoaded s" and "\<not> isDrawing s"
    and "\<And>cx w h p. lineless cx \<Longrightarrow> raster cx w h p = 0"
  shows "cdata (maskCanvas (stopDraw (startDraw raster rect e s))) = cdata (maskCanvas s)"
proof -
  let ?m = "maskCanvas s"
  from assms(1,3) have e: "path (cctx ?m) = []" and st: "storable (cdata ?m)" and wf: "wf_canvas ?m"
    by (simp_all add: session_inv_def)
  have "cdata (stroke raster (?m\<lparr>cctx := cx\<rparr>)) = cdata ?m" if "lineless cx" for cx
  proof -
    have "cdata (stroke raster (?m\<lparr>cctx := cx\<rparr>)) = cdata (?m\<lparr>cctx := cx\<rparr>)"
      using st wf that by (intro stroke_nothing) (simp_all add: wf_canvas_def assms(4))
    then show ?thesis
      by simp
  qed
  moreover have "lineless (lineTo x y (cx\<lparr>path := []\<rparr>))" for x y cx
    by (rule lineless_lineTo) simp
  ultimately show ?thesis
    using assms(2) e
    by (simp add: stopDraw_def startDraw_def paint_def Let_def set_lineWidth_def lineTo_def
        lineless_def split: option.splits)
qed

theorem click_paints_nothing_witness:
  "session_inv loaded \<and> imageLoaded loaded \<and> \<not> isDrawing loaded
   \<and> (\<nexists>cx w h p. lineless cx \<and> dab cx w h p \<noteq> 0)
   \<and> cdata (maskCanvas loaded) = [0, 0, 0, 0, 0, 0, 0, 0]
   \<and> cdata (maskCanvas (stopDraw (startDraw dab layout click loaded))) = [0, 0, 0, 0, 0, 0, 0, 0]
   \<and> cdata (maskCanvas (stopDraw (draw dab layout move (startDraw dab layout click loaded)))) =
       [255, 50, 50, 255, 0, 0, 0, 0]"
proof -
  have i: "session_inv loaded"
    unfolding loaded_def by (rule inv_upload)
  have d: "\<not> isDrawing loaded"
    by (simp add: loaded_def handleImageUpload_simps page_def)
  have r: "dab cx w h p = 0" if "lineless cx" for cx w h p
    using that by (simp add: dab_def)
  have m: "cdata (maskCanvas (stopDraw (draw dab layout move (startDraw dab layout click loaded)))) =
       [255, 50, 50, 255, 0, 0, 0, 0]"
    using masked_mask by (simp add: masked_def pressed_def)
  from click_paints_nothing [of loaded dab layout click, OF i loaded_flags(1) d r] i d r m
  show ?thesis
    by (simp add: loaded_flags loaded_mask)
qed

end
